theory Spec2Isabelle
  imports Main
begin

section \<open>Data model\<close>

text \<open>
  The error codes thrown by the functions modelled below (\<open>E::DIMENSIONS_DONT_MATCH\<close>,
  \<open>E::NOT_SCALAR\<close>, \<open>E::DIMENSIONALITY_NOT_SUPPORTED\<close>).
\<close>

datatype error = DIMENSIONS_DONT_MATCH | NOT_SCALAR | DIMENSIONALITY_NOT_SUPPORTED

text \<open>
  A physical quantity as \<open>Initialize\<close> reads it: only its \<open>units\<close> member is used.
  The class \<open>Units\<close> is declared outside the files at hand, so it is the type
  parameter \<open>'u\<close>; two units are compared with \<open>=\<close>, as \<open>operator!=\<close> does.
\<close>

record 'u PhysicalQuantity =
  units :: 'u

text \<open>
  The part of \<open>dip::Image\<close> that the functions below read: the sizes
  (\<open>Dimensions()\<close>, \<open>RefDimensions()\<close>), the strides (\<open>RefStrides()\<close>), whether the
  tensor is scalar (\<open>IsScalar()\<close>) and the pixel size along each dimension
  (\<open>PixelSize( ii )\<close>). \<open>dip::uint\<close> values are \<open>nat\<close>, \<open>dip::sint\<close> values are
  \<open>int\<close>: the functions only compare and copy them, and count indices up to a
  vector's length, so no arithmetic can wrap.
\<close>

record 'u Image =
  Dimensions :: "nat list"
  Strides :: "int list"
  IsScalar :: bool
  PixelSize :: "nat \<Rightarrow> 'u PhysicalQuantity"

definition RefDimensions :: "('u, 'm) Image_scheme \<Rightarrow> nat list" where
  "RefDimensions img = Dimensions img"

definition RefStrides :: "('u, 'm) Image_scheme \<Rightarrow> int list" where
  "RefStrides img = Strides img"

definition Dimensionality :: "('u, 'm) Image_scheme \<Rightarrow> nat" where
  "Dimensionality img = length (Dimensions img)"

section \<open>framework.cpp: singleton expansion\<close>

text \<open>
  The loop of the static helper \<open>SingletonExpandedSize( size, size2 )\<close>: \<open>jj\<close> runs over
  \<open>size2\<close>, \<open>size\<close> is updated in place, and the throw ends the loop.
\<close>

function SingletonExpandedSize_loop :: "nat \<Rightarrow> nat list \<Rightarrow> nat list \<Rightarrow> error + nat list" where
  "SingletonExpandedSize_loop jj sz sz2 =
     (if jj < length sz2 then
        (if sz ! jj \<noteq> sz2 ! jj then
           (if sz ! jj = 1 then SingletonExpandedSize_loop (jj + 1) (sz[jj := sz2 ! jj]) sz2
            else if sz2 ! jj \<noteq> 1 then Inl DIMENSIONS_DONT_MATCH
            else SingletonExpandedSize_loop (jj + 1) sz sz2)
         else SingletonExpandedSize_loop (jj + 1) sz sz2)
      else Inr sz)"
  by pat_completeness auto
termination
  by (relation "measure (\<lambda>(jj, sz, sz2). length sz2 - jj)") auto

declare SingletonExpandedSize_loop.simps [simp del]

text \<open>The static helper: \<open>size.resize( size2.size(), 1 )\<close> when \<open>size\<close> is shorter, then the loop.\<close>

definition SingletonExpandedSize_pair :: "nat list \<Rightarrow> nat list \<Rightarrow> error + nat list" where
  "SingletonExpandedSize_pair sz sz2 =
     SingletonExpandedSize_loop 0
       (if length sz < length sz2 then sz @ replicate (length sz2 - length sz) 1 else sz) sz2"

text \<open>The loop \<open>for ii = 1 .. in.size()\<close> of \<open>SingletonExpandedSize( in )\<close>, over the remaining images.\<close>

fun SingletonExpandedSize_from :: "nat list \<Rightarrow> ('u, 'm) Image_scheme list \<Rightarrow> error + nat list" where
  "SingletonExpandedSize_from sz [] = Inr sz"
| "SingletonExpandedSize_from sz (im # rest) =
     (case SingletonExpandedSize_pair sz (Dimensions im) of
        Inl e \<Rightarrow> Inl e
      | Inr sz' \<Rightarrow> SingletonExpandedSize_from sz' rest)"

text \<open>
  \<open>SingletonExpandedSize( in )\<close>. The source reads \<open>in[0]\<close> without a check, so the
  function is given for a non-empty array only.
\<close>

fun SingletonExpandedSize :: "('u, 'm) Image_scheme list \<Rightarrow> error + nat list" where
  "SingletonExpandedSize (im0 # rest) = SingletonExpandedSize_from (Dimensions im0) rest"

section \<open>framework.cpp: the processing dimension\<close>

definition SMALL_IMAGE :: nat where
  "SMALL_IMAGE = 63"

text \<open>The loop of \<open>OptimalProcessingDim\<close>, with \<open>ii\<close> and \<open>processingDim\<close> as its state.\<close>

function OptimalProcessingDim_loop :: "int list \<Rightarrow> nat list \<Rightarrow> nat \<Rightarrow> nat \<Rightarrow> nat" where
  "OptimalProcessingDim_loop strds dms ii processingDim =
     (if ii < length strds then
        (if strds ! ii < strds ! processingDim then
           (if dms ! ii > SMALL_IMAGE \<or> dms ! ii > dms ! processingDim
            then OptimalProcessingDim_loop strds dms (ii + 1) ii
            else OptimalProcessingDim_loop strds dms (ii + 1) processingDim)
         else if dms ! processingDim \<le> SMALL_IMAGE \<and> dms ! ii > dms ! processingDim
            then OptimalProcessingDim_loop strds dms (ii + 1) ii
         else OptimalProcessingDim_loop strds dms (ii + 1) processingDim)
      else processingDim)"
  by pat_completeness auto
termination
  by (relation "measure (\<lambda>(strds, dms, ii, processingDim). length strds - ii)") auto

declare OptimalProcessingDim_loop.simps [simp del]

definition OptimalProcessingDim :: "('u, 'm) Image_scheme \<Rightarrow> nat" where
  "OptimalProcessingDim img = OptimalProcessingDim_loop (RefStrides img) (RefDimensions img) 1 0"

section \<open>feature_grey_dimensions_cube.h: the feature's value information\<close>

text \<open>
  One entry of the \<open>ValueInformationArray\<close>: the members \<open>name\<close> and \<open>units\<close> that
  \<open>Initialize\<close> writes.
\<close>

record 'u ValueInformation =
  info_name :: string
  info_units :: 'u

text \<open>The data members \<open>inertiaIndex_\<close> and \<open>nD_\<close> of the feature object.\<close>

record FeatureGreyDimensionsCube =
  inertiaIndex :: int
  nD :: nat

text \<open>\<open>std::to_string\<close> on a \<open>dip::uint\<close>: the decimal digits.\<close>

function to_string :: "nat \<Rightarrow> string" where
  "to_string n =
     (if n < 10 then [''0123456789'' ! n]
      else to_string (n div 10) @ [''0123456789'' ! (n mod 10)])"
  by pat_completeness auto
termination
  by (relation "measure id") auto

declare to_string.simps [simp del]

text \<open>
  Modelled from the spec: \<open>PhysicalQuantity::IsPhysical\<close> and \<open>Units::Pixel\<close> are declared
  outside the files at hand. The specification speaks of the physical unit of an axis,
  so whether a quantity is physical is a property of its units, given by the parameter
  \<open>unitsArePhysical\<close>; the pixel-count unit is the parameter \<open>Pixel\<close> of \<open>Initialize\<close>.
\<close>

definition IsPhysical :: "('u \<Rightarrow> bool) \<Rightarrow> 'u PhysicalQuantity \<Rightarrow> bool" where
  "IsPhysical unitsArePhysical pq = unitsArePhysical (units pq)"

text \<open>
  The loop \<open>for ii = 1 .. nD_\<close> of \<open>Initialize\<close> that compares the units of every
  further axis with those of axis 0; the \<open>break\<close> ends it with \<open>sameUnits = false\<close>.
\<close>

function sameUnits_loop :: "('u, 'm) Image_scheme \<Rightarrow> 'u PhysicalQuantity \<Rightarrow> nat \<Rightarrow> nat \<Rightarrow> bool" where
  "sameUnits_loop label pq n ii =
     (if ii < n then
        (if units (PixelSize label ii) \<noteq> units pq then False
         else sameUnits_loop label pq n (ii + 1))
      else True)"
  by pat_completeness auto
termination
  by (relation "measure (\<lambda>(label, pq, n, ii). n - ii)") auto

declare sameUnits_loop.simps [simp del]

text \<open>
  \<open>FeatureGreyDimensionsCube::Initialize\<close>. It returns the feature object as the call
  leaves it, and either the thrown error or the value information. \<open>nD_\<close> is assigned
  before the dimensionality is checked, so it is set even when that check throws.
\<close>

definition Initialize ::
  "('u \<Rightarrow> bool) \<Rightarrow> 'u \<Rightarrow> FeatureGreyDimensionsCube \<Rightarrow> ('u, 'm) Image_scheme \<Rightarrow>
   ('u, 'm) Image_scheme \<Rightarrow> nat \<Rightarrow>
   FeatureGreyDimensionsCube \<times> (error + 'u ValueInformation list)" where
  "Initialize unitsArePhysical Pixel self label grey nObjects =
     (if \<not> IsScalar grey then (self, Inl NOT_SCALAR)
      else
        let self1 = self\<lparr>nD := Dimensionality label\<rparr>
        in if nD self1 < 2 \<or> nD self1 > 3 then (self1, Inl DIMENSIONALITY_NOT_SUPPORTED)
           else
             let pq = PixelSize label 0;
                 sameUnits = IsPhysical unitsArePhysical pq;
                 sameUnits = (if sameUnits then sameUnits_loop label pq (nD self1) 1 else sameUnits);
                 unts = (if sameUnits then units pq else Pixel);
                 out = map (\<lambda>ii. \<lparr>info_name = ''axis'' @ to_string ii, info_units = unts\<rparr>)
                         [0..<nD self1]
             in (self1\<lparr>inertiaIndex := - 1\<rparr>, Inr out))"

section \<open>The broadcasting rule as the specification words it\<close>

text \<open>
  The shape-compatibility relation of the specification, written from its words and
  independently of the loop above: both dimension lists are right-padded with 1 to the
  longer length; a pair of sizes is a mismatch when the two are unequal and neither is 1;
  otherwise the result takes the non-1 value of the pair.
\<close>

definition pad_shape :: "nat \<Rightarrow> nat list \<Rightarrow> nat list" where
  "pad_shape n s = s @ replicate (n - length s) 1"

definition singleton_expand_rule :: "nat list \<Rightarrow> nat list \<Rightarrow> error + nat list" where
  "singleton_expand_rule s t =
     (let n = max (length s) (length t);
          ps = zip (pad_shape n s) (pad_shape n t)
      in if list_ex (\<lambda>(a, b). a \<noteq> b \<and> a \<noteq> 1 \<and> b \<noteq> 1) ps
         then Inl DIMENSIONS_DONT_MATCH
         else Inr (map (\<lambda>(a, b). if a = 1 then b else a) ps))"

fun broadcast_fold :: "nat list \<Rightarrow> nat list list \<Rightarrow> error + nat list" where
  "broadcast_fold s [] = Inr s"
| "broadcast_fold s (t # ts) =
     (case singleton_expand_rule s t of Inl e \<Rightarrow> Inl e | Inr s' \<Rightarrow> broadcast_fold s' ts)"

fun ComputeBroadcastShape_spec :: "nat list list \<Rightarrow> error + nat list" where
  "ComputeBroadcastShape_spec (s # ts) = broadcast_fold s ts"

text \<open>Two shapes are singleton-expandable: every padded pair is equal or has a 1.\<close>

definition singleton_expandable :: "nat list \<Rightarrow> nat list \<Rightarrow> bool" where
  "singleton_expandable s t =
     (let n = max (length s) (length t)
      in list_all2 (\<lambda>a b. a = b \<or> a = 1 \<or> b = 1) (pad_shape n s) (pad_shape n t))"

definition dim_at :: "nat list \<Rightarrow> nat \<Rightarrow> nat" where
  "dim_at s k = (if k < length s then s ! k else 1)"

section \<open>The processing-dimension policy\<close>

text \<open>The first index at which a list of integers takes its least value.\<close>

definition first_min_index :: "int list \<Rightarrow> nat" where
  "first_min_index xs =
     (case find (\<lambda>i. list_all (\<lambda>x. xs ! i \<le> x) xs) [0..<length xs] of
        None \<Rightarrow> 0 | Some i \<Rightarrow> i)"

text \<open>
  The policy as the specification states it, for a returned index \<open>r\<close>: with \<open>m\<close> the
  first dimension of smallest stride magnitude, \<open>r\<close> is \<open>m\<close>, unless the extent of \<open>m\<close>
  is at most \<open>SMALL_IMAGE\<close> and some dimension has a strictly larger extent, and then
  \<open>r\<close> is a dimension of strictly larger extent.
\<close>

definition SelectProcessingDimension_claimed :: "('u, 'm) Image_scheme \<Rightarrow> nat \<Rightarrow> bool" where
  "SelectProcessingDimension_claimed img r =
     (let d = RefDimensions img; m = first_min_index (map abs (RefStrides img))
      in if d ! m \<le> SMALL_IMAGE \<and> list_ex (\<lambda>e. e > d ! m) d then d ! r > d ! m else r = m)"

text \<open>An image with the given sizes and strides, for the concrete instances below.\<close>

definition image_of :: "nat list \<Rightarrow> int list \<Rightarrow> unit Image" where
  "image_of dms strds = \<lparr>Dimensions = dms, Strides = strds, IsScalar = True, PixelSize = (\<lambda>ii. \<lparr>units = ()\<rparr>)\<rparr>"

section \<open>Units shared by all axes\<close>

text \<open>
  All axes of the label image share the same physical unit: the units of every axis
  are physical and equal those of axis 0.
\<close>

definition share_physical_unit :: "('u \<Rightarrow> bool) \<Rightarrow> ('u, 'm) Image_scheme \<Rightarrow> bool" where
  "share_physical_unit unitsArePhysical label =
     list_all (\<lambda>ii. unitsArePhysical (units (PixelSize label ii))
                   \<and> units (PixelSize label ii) = units (PixelSize label 0))
       [0..<Dimensionality label]"

text \<open>An image whose pixel size is in micrometres along every axis, for the concrete instance below.\<close>

definition micron_image :: "nat list \<Rightarrow> int list \<Rightarrow> string Image" where
  "micron_image dms strds =
     \<lparr>Dimensions = dms, Strides = strds, IsScalar = True, PixelSize = (\<lambda>ii. \<lparr>units = ''um''\<rparr>)\<rparr>"

text \<open>An image in micrometres along axis 0 and in nanometres along the other axes.\<close>

definition mixed_image :: "nat list \<Rightarrow> int list \<Rightarrow> string Image" where
  "mixed_image dms strds =
     \<lparr>Dimensions = dms, Strides = strds, IsScalar = True,
      PixelSize = (\<lambda>ii. \<lparr>units = (if ii = 0 then ''um'' else ''nm'')\<rparr>)\<rparr>"

text \<open>
  Units named by strings, for the concrete instance below: every name but the pixel
  count \<open>px\<close> and the empty, dimensionless one is physical.
\<close>

definition physical_name :: "string \<Rightarrow> bool" where
  "physical_name u \<longleftrightarrow> u \<noteq> ''px'' \<and> u \<noteq> []"

section \<open>regions.h: labeled regions\<close>

text \<open>
  \<open>regions.h\<close> declares \<open>Label\<close>, \<open>Relabel\<close>, \<open>SmallObjectsRemove\<close> and \<open>GrowRegions\<close>; their
  bodies are not among the files at hand. The definitions of this section are written
  from the specification and the documentation comments of the header. An image is the
  list of its pixels in storage order. The neighbour lists that a connectivity and a
  boundary condition give (\<open>neighborlist.h\<close>, not at hand either) are a parameter
  \<open>nbrs\<close>: \<open>nbrs p\<close> lists the pixels adjacent to pixel \<open>p\<close>; indices beyond the image
  are ignored.
\<close>

subsection \<open>Connected components\<close>

text \<open>
  Modelled from the spec: the adjacency of foreground pixels under the connectivity
  (the body of \<open>Label\<close> is missing). Two foreground pixels are adjacent when one lists the
  other as a neighbour.
\<close>

definition edges :: "(nat \<Rightarrow> nat list) \<Rightarrow> bool list \<Rightarrow> (nat \<times> nat) list" where
  "edges nbrs binary =
     concat (map (\<lambda>p. concat (map (\<lambda>q. if q < length binary \<and> binary ! p \<and> binary ! q
                                          then [(p, q), (q, p)] else [])
                                 (nbrs p)))
                 [0..<length binary])"

text \<open>
  Modelled from the spec: "foreground pixels connected under \<open>connectivity\<close> belong to
  the same component" (the body of \<open>Label\<close> is missing): a chain of adjacent
  foreground pixels leads from one to the other.
\<close>

definition connected :: "(nat \<Rightarrow> nat list) \<Rightarrow> bool list \<Rightarrow> nat \<Rightarrow> nat \<Rightarrow> bool" where
  "connected nbrs binary p q \<longleftrightarrow> p = q \<or> (p, q) \<in> (set (edges nbrs binary))\<^sup>+"

text \<open>
  Modelled from the spec: the pixels of the component of \<open>p\<close>, in storage order (the body
  of \<open>Label\<close> is missing).
\<close>

definition component :: "(nat \<Rightarrow> nat list) \<Rightarrow> bool list \<Rightarrow> nat \<Rightarrow> nat list" where
  "component nbrs binary p = filter (connected nbrs binary p) [0..<length binary]"

text \<open>
  Modelled from the spec: the first pixel of every component in storage order (the body
  of \<open>Label\<close> is missing). The specification leaves the order of the labels open
  ("unspecified but deterministic"); the model numbers the components by their first
  pixel.
\<close>

definition first_pixels :: "(nat \<Rightarrow> nat list) \<Rightarrow> bool list \<Rightarrow> nat list" where
  "first_pixels nbrs binary =
     filter (\<lambda>p. binary ! p \<and> list_all (\<lambda>q. \<not> connected nbrs binary q p) [0..<p])
       [0..<length binary]"

text \<open>
  Modelled from the spec: a component of \<open>s\<close> pixels lies within \<open>[minSize, maxSize]\<close>,
  where 0 disables the corresponding bound (the body of \<open>Label\<close> is missing).
\<close>

definition size_ok :: "nat \<Rightarrow> nat \<Rightarrow> nat \<Rightarrow> bool" where
  "size_ok minSize maxSize s \<longleftrightarrow> (minSize = 0 \<or> minSize \<le> s) \<and> (maxSize = 0 \<or> s \<le> maxSize)"

text \<open>
  Modelled from the spec: \<open>Label( binary, out, connectivity, minSize, maxSize,
  boundaryCondition )\<close>, whose body is missing. Every component receives a label of
  \<open>1..M\<close>, with \<open>M\<close> the number of components before size filtering; background pixels
  are 0; the pixels of a component outside \<open>[minSize, maxSize]\<close> are reset to 0 and the
  component is not counted; surviving labels are not renumbered. The result is the
  count of surviving components and the label image.
\<close>

definition Label :: "bool list \<Rightarrow> (nat \<Rightarrow> nat list) \<Rightarrow> nat \<Rightarrow> nat \<Rightarrow> nat \<times> nat list" where
  "Label binary nbrs minSize maxSize =
     (let firsts = first_pixels nbrs binary;
          out = map (\<lambda>p. if binary ! p
                             \<and> size_ok minSize maxSize (length (component nbrs binary p))
                          then length (filter (\<lambda>r. r \<le> hd (component nbrs binary p)) firsts)
                          else 0)
                  [0..<length binary]
      in (length (filter (\<lambda>r. size_ok minSize maxSize (length (component nbrs binary r))) firsts),
          out))"

text \<open>
  Modelled from the spec: the connected components of a binary image as sets of pixels,
  one per foreground pixel's reach (the body of \<open>Label\<close> is missing).
\<close>

definition connected_components :: "(nat \<Rightarrow> nat list) \<Rightarrow> bool list \<Rightarrow> nat set set" where
  "connected_components nbrs binary =
     (\<lambda>p. {q. q < length binary \<and> connected nbrs binary p q}) ` {p. p < length binary \<and> binary ! p}"

subsection \<open>Relabel and SmallObjectsRemove\<close>

text \<open>
  Modelled from the spec: \<open>Relabel( label, out )\<close>, whose body is missing: "renumbers
  labels to \<open>1..K\<close> contiguous, preserving relative order of original label values;
  background stays 0". A positive label becomes the number of distinct positive labels
  of the image that are at most as large.
\<close>

definition Relabel :: "nat list \<Rightarrow> nat list" where
  "Relabel label =
     map (\<lambda>v. if v = 0 then 0 else length (remdups (filter (\<lambda>l. 0 < l \<and> l \<le> v) label))) label"

text \<open>The distinct positive labels present in a label image.\<close>

definition positive_labels :: "nat list \<Rightarrow> nat set" where
  "positive_labels label = set (filter (\<lambda>l. 0 < l) label)"

text \<open>
  The input of \<open>SmallObjectsRemove\<close> is a binary image or a label image (an unsigned
  integer image).
\<close>

datatype image_data = Binary "bool list" | Labeled "nat list"

text \<open>
  Modelled from the spec: \<open>SmallObjectsRemove( in, out, threshold, connectivity )\<close>, whose
  body is missing. On a label image, the labels of the objects with fewer than
  \<open>threshold\<close> pixels are zeroed and the connectivity is ignored; on a binary image it is
  \<open>Label\<close> with \<open>minSize = threshold\<close>, binarized again.
\<close>

definition SmallObjectsRemove :: "image_data \<Rightarrow> nat \<Rightarrow> (nat \<Rightarrow> nat list) \<Rightarrow> image_data" where
  "SmallObjectsRemove inp threshold nbrs =
     (case inp of
        Labeled label \<Rightarrow>
          Labeled (map (\<lambda>v. if count_list label v < threshold then 0 else v) label)
      | Binary binary \<Rightarrow>
          Binary (map (\<lambda>l. l \<noteq> 0) (snd (Label binary nbrs threshold 0))))"

subsection \<open>GrowRegions\<close>

text \<open>
  Modelled from the spec: growth may be constrained to a mask (the body of \<open>GrowRegions\<close>
  is missing). \<open>None\<close> is the call without a mask image.
\<close>

definition inside_mask :: "bool list option \<Rightarrow> nat \<Rightarrow> bool" where
  "inside_mask msk p = (case msk of None \<Rightarrow> True | Some m \<Rightarrow> p < length m \<and> m ! p)"

text \<open>
  Modelled from the spec: the distinct non-zero labels among the neighbours of a pixel
  (the body of \<open>GrowRegions\<close> is missing).
\<close>

definition neighbor_labels :: "nat list \<Rightarrow> nat list \<Rightarrow> nat list" where
  "neighbor_labels label qs =
     remdups (filter (\<lambda>l. l \<noteq> 0) (map (\<lambda>q. label ! q) (filter (\<lambda>q. q < length label) qs)))"

text \<open>
  Modelled from the spec: one growth step (the body of \<open>GrowRegions\<close> is missing). A
  labeled pixel keeps its label. A background pixel inside the mask takes the label of
  its neighbours when exactly one non-zero label occurs among them; adjacent to two or
  more different labels it "remains unassigned rather than being claimed by either".
\<close>

definition grow_step :: "(nat \<Rightarrow> nat list) \<Rightarrow> bool list option \<Rightarrow> nat list \<Rightarrow> nat list" where
  "grow_step nbrs msk label =
     map (\<lambda>p. if label ! p \<noteq> 0 then label ! p
              else if inside_mask msk p
                then (case neighbor_labels label (nbrs p) of [l] \<Rightarrow> l | _ \<Rightarrow> 0)
                else 0)
       [0..<length label]"

text \<open>
  Modelled from the spec: \<open>i\<close> growth steps (the body of \<open>GrowRegions\<close> is missing). The
  neighbour lists may change from step to step, as alternating connectivity requires:
  \<open>nbrs k\<close> are the lists of step \<open>k\<close>.
\<close>

fun grow_steps :: "(nat \<Rightarrow> nat \<Rightarrow> nat list) \<Rightarrow> bool list option \<Rightarrow> nat \<Rightarrow> nat \<Rightarrow> nat list \<Rightarrow> nat list" where
  "grow_steps nbrs msk k 0 label = label"
| "grow_steps nbrs msk k (Suc i) label =
     grow_steps nbrs msk (Suc k) i (grow_step (nbrs k) msk label)"

text \<open>
  Modelled from the spec: "grow until no further change is possible" (the body of
  \<open>GrowRegions\<close> is missing): steps are taken until one leaves the image unchanged. Every
  step that changes the image labels a background pixel, so the loop ends.
\<close>

function grow_until_stable :: "(nat \<Rightarrow> nat \<Rightarrow> nat list) \<Rightarrow> bool list option \<Rightarrow> nat \<Rightarrow> nat list \<Rightarrow> nat list" where
  "grow_until_stable nbrs msk k label =
     (if grow_step (nbrs k) msk label = label then label
      else grow_until_stable nbrs msk (Suc k) (grow_step (nbrs k) msk label))"
  by pat_completeness auto
termination
proof (relation "measure (\<lambda>(nbrs, msk, k, label). card {p. p < length label \<and> label ! p = 0})")
  show "wf (measure (\<lambda>(nbrs, msk, k, label). card {p. p < length label \<and> label ! p = 0}))"
    by simp
next
  fix nbrs :: "nat \<Rightarrow> nat \<Rightarrow> nat list" and msk k and label :: "nat list"
  let ?l' = "grow_step (nbrs k) msk label"
  assume neq: "?l' \<noteq> label"
  have len: "length ?l' = length label"
    by (simp add: grow_step_def)
  have keep: "?l' ! p = label ! p" if "p < length label" "label ! p \<noteq> 0" for p
    using that by (simp add: grow_step_def)
  from neq len obtain p where p: "p < length label" "?l' ! p \<noteq> label ! p"
    by (auto simp: list_eq_iff_nth_eq)
  with keep have p0: "label ! p = 0" by blast
  have ps: "{q. q < length ?l' \<and> ?l' ! q = 0} \<subset> {q. q < length label \<and> label ! q = 0}"
  proof
    show "{q. q < length ?l' \<and> ?l' ! q = 0} \<subseteq> {q. q < length label \<and> label ! q = 0}"
    proof
      fix q assume "q \<in> {q. q < length ?l' \<and> ?l' ! q = 0}"
      then have q: "q < length label" "?l' ! q = 0" using len by simp_all
      have "label ! q = 0"
      proof (rule ccontr)
        assume "label ! q \<noteq> 0"
        with keep[OF q(1)] q(2) show False by simp
      qed
      with q show "q \<in> {q. q < length label \<and> label ! q = 0}" by simp
    qed
    have "p \<in> {q. q < length label \<and> label ! q = 0}"
      using p(1) p0 by simp
    moreover have "p \<notin> {q. q < length ?l' \<and> ?l' ! q = 0}"
      using p(2) p0 by simp
    ultimately show "{q. q < length ?l' \<and> ?l' ! q = 0} \<noteq> {q. q < length label \<and> label ! q = 0}"
      by blast
  qed
  have fin: "finite {q. q < length label \<and> label ! q = 0}"
    by simp
  have "card {q. q < length ?l' \<and> ?l' ! q = 0} < card {q. q < length label \<and> label ! q = 0}"
    using fin ps by (rule psubset_card_mono)
  then show "((nbrs, msk, Suc k, ?l'), (nbrs, msk, k, label))
      \<in> measure (\<lambda>(nbrs, msk, k, label). card {p. p < length label \<and> label ! p = 0})"
    by simp
qed

declare grow_until_stable.simps [simp del]

text \<open>
  Modelled from the spec: \<open>GrowRegions( label, mask, out, connectivity, iterations )\<close>,
  whose body is missing. \<open>iterations = 0\<close> means growth up to the fixed point.
\<close>

definition GrowRegions :: "nat list \<Rightarrow> bool list option \<Rightarrow> (nat \<Rightarrow> nat \<Rightarrow> nat list) \<Rightarrow> nat \<Rightarrow> nat list" where
  "GrowRegions label msk nbrs iterations =
     (if iterations = 0 then grow_until_stable nbrs msk 0 label
      else grow_steps nbrs msk 0 iterations label)"

text \<open>The set of non-background pixels of a label image.\<close>

definition nonbackground :: "nat list \<Rightarrow> nat set" where
  "nonbackground label = set (filter (\<lambda>p. label ! p \<noteq> 0) [0..<length label])"

text \<open>
  The neighbour lists of a one-dimensional image, each pixel adjacent to the one before
  and the one after it, for the concrete instances below.
\<close>

definition line_nbrs :: "nat \<Rightarrow> nat list" where
  "line_nbrs p = (if p = 0 then [1] else [p - 1, p + 1])"

text \<open>The same neighbour lists at every growth step.\<close>

definition fixed_nbrs :: "(nat \<Rightarrow> nat list) \<Rightarrow> nat \<Rightarrow> nat \<Rightarrow> nat list" where
  "fixed_nbrs nb k = nb"

section \<open>Singleton expansion follows the broadcasting rule\<close>

lemma loop_bad:
  "length sz2 \<le> length sz \<Longrightarrow>
   \<exists>k. jj \<le> k \<and> k < length sz2 \<and> sz ! k \<noteq> sz2 ! k \<and> sz ! k \<noteq> 1 \<and> sz2 ! k \<noteq> 1 \<Longrightarrow>
   SingletonExpandedSize_loop jj sz sz2 = Inl DIMENSIONS_DONT_MATCH"
proof (induction jj sz sz2 rule: SingletonExpandedSize_loop.induct)
  case (1 jj sz sz2)
  from "1.prems" obtain k where k: "jj \<le> k" "k < length sz2" "sz ! k \<noteq> sz2 ! k" "sz ! k \<noteq> 1" "sz2 ! k \<noteq> 1"
    by blast
  then have jj: "jj < length sz2" by simp
  show ?case
  proof (cases "k = jj")
    case True
    with k jj show ?thesis
      by (subst SingletonExpandedSize_loop.simps) simp
  next
    case False
    with k have k': "jj + 1 \<le> k" by simp
    have ex1: "\<exists>k. jj + 1 \<le> k \<and> k < length sz2 \<and> sz ! k \<noteq> sz2 ! k \<and> sz ! k \<noteq> 1 \<and> sz2 ! k \<noteq> 1"
      using k k' by blast
    have ex2: "\<exists>k. jj + 1 \<le> k \<and> k < length sz2 \<and> sz[jj := sz2 ! jj] ! k \<noteq> sz2 ! k
          \<and> sz[jj := sz2 ! jj] ! k \<noteq> 1 \<and> sz2 ! k \<noteq> 1"
      using k k' by (intro exI[of _ k]) simp
    show ?thesis
      using "1.IH" "1.prems"(1) jj ex1 ex2
      by (subst SingletonExpandedSize_loop.simps) simp
  qed
qed

lemma loop_ok:
  "length sz2 \<le> length sz \<Longrightarrow>
   \<forall>k. jj \<le> k \<and> k < length sz2 \<longrightarrow> sz ! k = sz2 ! k \<or> sz ! k = 1 \<or> sz2 ! k = 1 \<Longrightarrow>
   SingletonExpandedSize_loop jj sz sz2 =
     Inr (map (\<lambda>k. if jj \<le> k \<and> k < length sz2 \<and> sz ! k = 1 then sz2 ! k else sz ! k) [0..<length sz])"
proof (induction jj sz sz2 rule: SingletonExpandedSize_loop.induct)
  case (1 jj sz sz2)
  show ?case
  proof (cases "jj < length sz2")
    case False
    have "map (\<lambda>k. if jj \<le> k \<and> k < length sz2 \<and> sz ! k = 1 then sz2 ! k else sz ! k) [0..<length sz] = sz"
      using False by (intro nth_equalityI) auto
    with False show ?thesis
      by (subst SingletonExpandedSize_loop.simps) simp
  next
    case True
    note jj = True
    from "1.prems" jj have c: "sz ! jj = sz2 ! jj \<or> sz ! jj = 1 \<or> sz2 ! jj = 1" by simp
    show ?thesis
    proof (cases "sz ! jj \<noteq> sz2 ! jj \<and> sz ! jj = 1")
      case True
      have p: "\<forall>k. jj + 1 \<le> k \<and> k < length sz2 \<longrightarrow>
           sz[jj := sz2 ! jj] ! k = sz2 ! k \<or> sz[jj := sz2 ! jj] ! k = 1 \<or> sz2 ! k = 1"
        using "1.prems" by auto
      have "SingletonExpandedSize_loop (jj + 1) (sz[jj := sz2 ! jj]) sz2 =
         Inr (map (\<lambda>k. if jj + 1 \<le> k \<and> k < length sz2 \<and> sz[jj := sz2 ! jj] ! k = 1 then sz2 ! k
               else sz[jj := sz2 ! jj] ! k) [0..<length (sz[jj := sz2 ! jj])])"
        using "1.IH"(1)[OF jj] True "1.prems"(1) p by simp
      also have "map (\<lambda>k. if jj + 1 \<le> k \<and> k < length sz2 \<and> sz[jj := sz2 ! jj] ! k = 1 then sz2 ! k
               else sz[jj := sz2 ! jj] ! k) [0..<length (sz[jj := sz2 ! jj])]
          = map (\<lambda>k. if jj \<le> k \<and> k < length sz2 \<and> sz ! k = 1 then sz2 ! k else sz ! k) [0..<length sz]"
        using True jj "1.prems"(1) by (intro nth_equalityI) (auto simp: nth_list_update)
      finally show ?thesis
        using True jj by (subst SingletonExpandedSize_loop.simps) simp
    next
      case False
      have p: "\<forall>k. jj + 1 \<le> k \<and> k < length sz2 \<longrightarrow> sz ! k = sz2 ! k \<or> sz ! k = 1 \<or> sz2 ! k = 1"
        using "1.prems" by auto
      have eq: "map (\<lambda>k. if jj + 1 \<le> k \<and> k < length sz2 \<and> sz ! k = 1 then sz2 ! k else sz ! k) [0..<length sz]
          = map (\<lambda>k. if jj \<le> k \<and> k < length sz2 \<and> sz ! k = 1 then sz2 ! k else sz ! k) [0..<length sz]"
        using False jj c "1.prems"(1)
        by (intro nth_equalityI) (auto simp: le_Suc_eq Suc_le_eq less_Suc_eq_le)
      show ?thesis
      proof (cases "sz ! jj = sz2 ! jj")
        case True
        then show ?thesis
          using "1.IH"(3)[OF jj] "1.prems"(1) p eq jj
          by (subst SingletonExpandedSize_loop.simps) simp
      next
        case neq: False
        with False c have "sz ! jj \<noteq> 1" "sz2 ! jj = 1" by auto
        then show ?thesis
          using "1.IH"(2)[OF jj] neq "1.prems"(1) p eq jj
          by (subst SingletonExpandedSize_loop.simps) simp
      qed
    qed
  qed
qed


lemma pad_shape_nth:
  "k < n \<Longrightarrow> pad_shape n s ! k = (if k < length s then s ! k else 1)"
  by (simp add: pad_shape_def nth_append)

lemma length_pad_shape: "length (pad_shape n s) = max n (length s)"
  by (simp add: pad_shape_def)

lemma SingletonExpandedSize_pair_rule:
  "SingletonExpandedSize_pair sz sz2 = singleton_expand_rule sz sz2"
proof -
  define n where "n = max (length sz) (length sz2)"
  define sz' where "sz' = (if length sz < length sz2 then sz @ replicate (length sz2 - length sz) 1 else sz)"
  define t' where "t' = pad_shape n sz2"
  have sz': "sz' = pad_shape n sz"
    by (auto simp: sz'_def pad_shape_def n_def max_def)
  have len: "length sz' = n" "length t' = n" "length sz2 \<le> length sz'"
    by (auto simp: sz'_def t'_def n_def length_pad_shape)
  have t'_nth: "t' ! k = (if k < length sz2 then sz2 ! k else 1)" if "k < n" for k
    using that by (simp add: t'_def pad_shape_nth)
  have ex: "list_ex (\<lambda>(a, b). a \<noteq> b \<and> a \<noteq> 1 \<and> b \<noteq> 1) (zip sz' t')
     \<longleftrightarrow> (\<exists>k. 0 \<le> k \<and> k < length sz2 \<and> sz' ! k \<noteq> sz2 ! k \<and> sz' ! k \<noteq> 1 \<and> sz2 ! k \<noteq> 1)"
    (is "?L \<longleftrightarrow> ?R")
  proof
    assume ?L
    then obtain k where k: "k < n" "sz' ! k \<noteq> t' ! k" "sz' ! k \<noteq> 1" "t' ! k \<noteq> 1"
      using len by (auto simp: list_ex_iff in_set_zip)
    with t'_nth[of k] have "k < length sz2" by (auto split: if_splits)
    with k t'_nth[of k] show ?R by auto
  next
    assume ?R
    then obtain k where k: "k < length sz2" "sz' ! k \<noteq> sz2 ! k" "sz' ! k \<noteq> 1" "sz2 ! k \<noteq> 1"
      by blast
    then have kn: "k < n" using len by simp
    then have "(sz' ! k, t' ! k) \<in> set (zip sz' t')"
      using len by (auto simp: in_set_zip)
    with k kn t'_nth[of k] show ?L
      by (auto simp: list_ex_iff)
  qed
  show ?thesis
  proof (cases "\<exists>k. 0 \<le> k \<and> k < length sz2 \<and> sz' ! k \<noteq> sz2 ! k \<and> sz' ! k \<noteq> 1 \<and> sz2 ! k \<noteq> 1")
    case True
    then have "SingletonExpandedSize_loop 0 sz' sz2 = Inl DIMENSIONS_DONT_MATCH"
      using len(3) by (intro loop_bad) auto
    with True ex show ?thesis
      by (simp add: SingletonExpandedSize_pair_def singleton_expand_rule_def Let_def
          sz'_def[symmetric] n_def[symmetric] sz'[symmetric] t'_def[symmetric])
  next
    case False
    then have "SingletonExpandedSize_loop 0 sz' sz2 =
       Inr (map (\<lambda>k. if 0 \<le> k \<and> k < length sz2 \<and> sz' ! k = 1 then sz2 ! k else sz' ! k) [0..<length sz'])"
      using len(3) by (intro loop_ok) auto
    also have "map (\<lambda>k. if 0 \<le> k \<and> k < length sz2 \<and> sz' ! k = 1 then sz2 ! k else sz' ! k) [0..<length sz']
       = map (\<lambda>(a, b). if a = 1 then b else a) (zip sz' t')"
      using len t'_nth by (intro nth_equalityI) auto
    finally show ?thesis using False ex
      by (simp add: SingletonExpandedSize_pair_def singleton_expand_rule_def Let_def
          sz'_def[symmetric] n_def[symmetric] sz'[symmetric] t'_def[symmetric])
  qed
qed

lemma SingletonExpandedSize_from_fold:
  "SingletonExpandedSize_from sz ims = broadcast_fold sz (map Dimensions ims)"
  by (induction ims arbitrary: sz) (auto simp: SingletonExpandedSize_pair_rule split: sum.splits)

text \<open>
  C1. For a list of one or more images, \<open>SingletonExpandedSize\<close> returns what the
  left-to-right fold of the singleton-expandable rule returns: the shapes padded on the
  right with 1, each result dimension the non-1 value of its pair, and the error
  \<open>DIMENSIONS_DONT_MATCH\<close> exactly when, at the first operand that does not fit the
  shape folded so far, some pair of sizes is unequal with neither equal to 1.
\<close>

theorem SingletonExpandedSize_is_broadcast_fold:
  "ins \<noteq> [] \<Longrightarrow> SingletonExpandedSize ins = ComputeBroadcastShape_spec (map Dimensions ins)"
  by (cases ins) (simp_all add: SingletonExpandedSize_from_fold)

theorem SingletonExpandedSize_is_broadcast_fold_witness:
  "SingletonExpandedSize
     [image_of [4, 1, 7] [1, 4, 4], image_of [1, 5] [1, 1], image_of [4, 5, 1, 2] [1, 4, 20, 20]]
     = Inr [4, 5, 7, 2]
   \<and> SingletonExpandedSize [image_of [4, 3] [1, 4], image_of [1, 1] [1, 1], image_of [4, 2] [1, 4]]
     = Inl DIMENSIONS_DONT_MATCH"
  using SingletonExpandedSize_is_broadcast_fold
      [of "[image_of [4, 1, 7] [1, 4, 4], image_of [1, 5] [1, 1], image_of [4, 5, 1, 2] [1, 4, 20, 20]]"]
    SingletonExpandedSize_is_broadcast_fold
      [of "[image_of [4, 3] [1, 4], image_of [1, 1] [1, 1], image_of [4, 2] [1, 4]]"]
  by (simp add: image_of_def singleton_expand_rule_def pad_shape_def)

section \<open>Rotating three operands\<close>

lemma singleton_expandable_dim_at:
  "singleton_expandable s t \<longleftrightarrow> (\<forall>k. dim_at s k = dim_at t k \<or> dim_at s k = 1 \<or> dim_at t k = 1)"
proof -
  define n where "n = max (length s) (length t)"
  have "singleton_expandable s t \<longleftrightarrow>
     (\<forall>k<n. pad_shape n s ! k = pad_shape n t ! k \<or> pad_shape n s ! k = 1 \<or> pad_shape n t ! k = 1)"
    unfolding singleton_expandable_def Let_def n_def[symmetric]
    by (simp add: list_all2_conv_all_nth length_pad_shape n_def)
  also have "\<dots> \<longleftrightarrow> (\<forall>k<n. dim_at s k = dim_at t k \<or> dim_at s k = 1 \<or> dim_at t k = 1)"
    by (simp add: pad_shape_nth dim_at_def)
  also have "\<dots> \<longleftrightarrow> (\<forall>k. dim_at s k = dim_at t k \<or> dim_at s k = 1 \<or> dim_at t k = 1)"
    by (auto simp: dim_at_def n_def)
  finally show ?thesis .
qed

lemma singleton_expand_rule_ok:
  assumes "singleton_expandable s t"
  shows "\<exists>r. singleton_expand_rule s t = Inr r \<and> length r = max (length s) (length t)
     \<and> (\<forall>k. dim_at r k = (if dim_at s k = 1 then dim_at t k else dim_at s k))"
proof -
  define n where "n = max (length s) (length t)"
  define ps where "ps = zip (pad_shape n s) (pad_shape n t)"
  have len: "length ps = n"
    by (simp add: ps_def length_pad_shape n_def)
  have nth: "ps ! k = (dim_at s k, dim_at t k)" if "k < n" for k
    using that by (simp add: ps_def length_pad_shape n_def pad_shape_nth dim_at_def)
  have c: "dim_at s k = dim_at t k \<or> dim_at s k = 1 \<or> dim_at t k = 1" for k
    using assms by (simp add: singleton_expandable_dim_at)
  have "\<not> list_ex (\<lambda>(a, b). a \<noteq> b \<and> a \<noteq> 1 \<and> b \<noteq> 1) ps"
  proof
    assume "list_ex (\<lambda>(a, b). a \<noteq> b \<and> a \<noteq> 1 \<and> b \<noteq> 1) ps"
    then obtain k where "k < n" "(\<lambda>(a, b). a \<noteq> b \<and> a \<noteq> 1 \<and> b \<noteq> 1) (ps ! k)"
      using len by (auto simp: list_ex_iff in_set_conv_nth)
    with nth[of k] c[of k] show False by auto
  qed
  then have r: "singleton_expand_rule s t = Inr (map (\<lambda>(a, b). if a = 1 then b else a) ps)"
    by (simp add: singleton_expand_rule_def Let_def n_def[symmetric] ps_def[symmetric])
  have "dim_at (map (\<lambda>(a, b). if a = 1 then b else a) ps) k
        = (if dim_at s k = 1 then dim_at t k else dim_at s k)" for k
  proof (cases "k < n")
    case True
    then show ?thesis using len nth[of k] by (simp add: dim_at_def[of "map _ _"])
  next
    case False
    then show ?thesis using len by (auto simp: dim_at_def n_def)
  qed
  with r len show ?thesis by (simp add: n_def)
qed

lemma dim_at_eqI:
  "length r = length r' \<Longrightarrow> (\<forall>k. dim_at r k = dim_at r' k) \<Longrightarrow> r = r'"
  by (intro nth_equalityI) (auto simp: dim_at_def split: if_splits)

lemma broadcast_fold_rotate3:
  assumes ab: "singleton_expandable a b" and ac: "singleton_expandable a c"
    and bc: "singleton_expandable b c"
  shows "broadcast_fold a [b, c] = broadcast_fold c [a, b] \<and> (\<exists>r. broadcast_fold a [b, c] = Inr r)"
proof -
  have cab: "dim_at a k = dim_at b k \<or> dim_at a k = 1 \<or> dim_at b k = 1" for k
    using ab by (simp add: singleton_expandable_dim_at)
  have cac: "dim_at a k = dim_at c k \<or> dim_at a k = 1 \<or> dim_at c k = 1" for k
    using ac by (simp add: singleton_expandable_dim_at)
  have cbc: "dim_at b k = dim_at c k \<or> dim_at b k = 1 \<or> dim_at c k = 1" for k
    using bc by (simp add: singleton_expandable_dim_at)
  have ca: "singleton_expandable c a"
    unfolding singleton_expandable_dim_at
  proof
    fix k show "dim_at c k = dim_at a k \<or> dim_at c k = 1 \<or> dim_at a k = 1"
      using cac[of k] by auto
  qed
  from singleton_expand_rule_ok[OF ab] obtain r1 where r1:
    "singleton_expand_rule a b = Inr r1" "length r1 = max (length a) (length b)"
    "\<And>k. dim_at r1 k = (if dim_at a k = 1 then dim_at b k else dim_at a k)"
    by blast
  from singleton_expand_rule_ok[OF ca] obtain r2 where r2:
    "singleton_expand_rule c a = Inr r2" "length r2 = max (length c) (length a)"
    "\<And>k. dim_at r2 k = (if dim_at c k = 1 then dim_at a k else dim_at c k)"
    by blast
  have r1c: "singleton_expandable r1 c"
    unfolding singleton_expandable_dim_at
  proof
    fix k show "dim_at r1 k = dim_at c k \<or> dim_at r1 k = 1 \<or> dim_at c k = 1"
      using r1(3)[of k] cac[of k] cbc[of k] by auto
  qed
  have r2b: "singleton_expandable r2 b"
    unfolding singleton_expandable_dim_at
  proof
    fix k show "dim_at r2 k = dim_at b k \<or> dim_at r2 k = 1 \<or> dim_at b k = 1"
      using r2(3)[of k] cab[of k] cbc[of k] by auto
  qed
  from singleton_expand_rule_ok[OF r1c] obtain r3 where r3:
    "singleton_expand_rule r1 c = Inr r3" "length r3 = max (length r1) (length c)"
    "\<And>k. dim_at r3 k = (if dim_at r1 k = 1 then dim_at c k else dim_at r1 k)"
    by blast
  from singleton_expand_rule_ok[OF r2b] obtain r4 where r4:
    "singleton_expand_rule r2 b = Inr r4" "length r4 = max (length r2) (length b)"
    "\<And>k. dim_at r4 k = (if dim_at r2 k = 1 then dim_at b k else dim_at r2 k)"
    by blast
  have "dim_at r3 k = dim_at r4 k" for k
    using r3(3)[of k] r4(3)[of k] r1(3)[of k] r2(3)[of k] cab[of k] cac[of k] cbc[of k]
    by auto
  moreover have "length r3 = length r4"
    using r1(2) r2(2) r3(2) r4(2) by (simp add: max_def)
  ultimately have "r3 = r4"
    by (intro dim_at_eqI) simp_all
  with r1 r2 r3 r4 show ?thesis by simp
qed

text \<open>
  C3. For three images whose shapes are pairwise singleton-expandable, the fold over
  \<open>[A, B, C]\<close> and the fold over \<open>[C, A, B]\<close> both succeed and return the same shape.
\<close>

theorem SingletonExpandedSize_rotate3:
  assumes "singleton_expandable (Dimensions A) (Dimensions B)"
    and "singleton_expandable (Dimensions A) (Dimensions C)"
    and "singleton_expandable (Dimensions B) (Dimensions C)"
  shows "SingletonExpandedSize [A, B, C] = SingletonExpandedSize [C, A, B]
       \<and> (\<exists>shape. SingletonExpandedSize [A, B, C] = Inr shape)"
proof -
  have "SingletonExpandedSize [A, B, C] = broadcast_fold (Dimensions A) [Dimensions B, Dimensions C]"
    by (simp add: SingletonExpandedSize_from_fold del: broadcast_fold.simps)
  moreover have "SingletonExpandedSize [C, A, B] = broadcast_fold (Dimensions C) [Dimensions A, Dimensions B]"
    by (simp add: SingletonExpandedSize_from_fold del: broadcast_fold.simps)
  ultimately show ?thesis
    using broadcast_fold_rotate3[OF assms] by metis
qed

theorem SingletonExpandedSize_rotate3_witness:
  "singleton_expandable [4, 1, 7] [1, 5] \<and> singleton_expandable [4, 1, 7] [4, 5, 1, 2]
   \<and> singleton_expandable [1, 5] [4, 5, 1, 2]
   \<and> SingletonExpandedSize
        [image_of [4, 1, 7] [1, 4, 4], image_of [1, 5] [1, 1], image_of [4, 5, 1, 2] [1, 4, 20, 20]]
      = SingletonExpandedSize
        [image_of [4, 5, 1, 2] [1, 4, 20, 20], image_of [4, 1, 7] [1, 4, 4], image_of [1, 5] [1, 1]]"
proof -
  have ab: "singleton_expandable (Dimensions (image_of [4, 1, 7] [1, 4, 4]))
      (Dimensions (image_of [1, 5] [1, 1]))"
    by (simp add: image_of_def singleton_expandable_def pad_shape_def)
  have ac: "singleton_expandable (Dimensions (image_of [4, 1, 7] [1, 4, 4]))
      (Dimensions (image_of [4, 5, 1, 2] [1, 4, 20, 20]))"
    by (simp add: image_of_def singleton_expandable_def pad_shape_def)
  have bc: "singleton_expandable (Dimensions (image_of [1, 5] [1, 1]))
      (Dimensions (image_of [4, 5, 1, 2] [1, 4, 20, 20]))"
    by (simp add: image_of_def singleton_expandable_def pad_shape_def)
  show ?thesis
    using SingletonExpandedSize_rotate3 [OF ab ac bc] ab ac bc
    by (simp add: image_of_def)
qed

section \<open>The processing dimension\<close>

lemma OptimalProcessingDim_loop_less:
  "processingDim < ii \<Longrightarrow> ii \<le> length strds \<Longrightarrow>
   OptimalProcessingDim_loop strds dms ii processingDim < length strds"
proof (induction strds dms ii processingDim rule: OptimalProcessingDim_loop.induct)
  case (1 strds dms ii processingDim)
  show ?case
  proof (cases "ii < length strds")
    case True
    with 1 show ?thesis
      by (subst OptimalProcessingDim_loop.simps) (simp split: if_splits)
  next
    case False
    with 1 show ?thesis
      by (subst OptimalProcessingDim_loop.simps) simp
  qed
qed

lemma OptimalProcessingDim_loop_empty:
  "OptimalProcessingDim_loop [] dms ii processingDim = processingDim"
  by (subst OptimalProcessingDim_loop.simps) simp

text \<open>
  C10. For an image with at least one dimension, \<open>OptimalProcessingDim\<close> returns an index
  strictly below the number of dimensions; for an image with no dimension it returns 0.
  The image is well formed: it has as many strides as sizes.
\<close>

theorem OptimalProcessingDim_valid_index:
  assumes "length (Strides img) = length (Dimensions img)"
  shows "(0 < Dimensionality img \<longrightarrow> OptimalProcessingDim img < Dimensionality img)
       \<and> (Dimensionality img = 0 \<longrightarrow> OptimalProcessingDim img = 0)"
proof (cases "Strides img")
  case Nil
  with assms show ?thesis
    by (simp add: OptimalProcessingDim_def RefStrides_def Dimensionality_def
        OptimalProcessingDim_loop_empty)
next
  case (Cons s ss)
  then have "OptimalProcessingDim_loop (Strides img) (Dimensions img) 1 0 < length (Strides img)"
    by (intro OptimalProcessingDim_loop_less) simp_all
  moreover from Cons assms have "Dimensions img \<noteq> []"
    by auto
  ultimately show ?thesis using assms
    by (simp add: OptimalProcessingDim_def RefStrides_def RefDimensions_def Dimensionality_def)
qed

theorem OptimalProcessingDim_valid_index_witness:
  "OptimalProcessingDim (image_of [4, 100, 7] [700, 7, 1]) < 3
   \<and> OptimalProcessingDim (image_of [] []) = 0"
  using OptimalProcessingDim_valid_index [of "image_of [4, 100, 7] [700, 7, 1]"]
    OptimalProcessingDim_valid_index [of "image_of [] []"]
  by (simp add: Dimensionality_def image_of_def)

text \<open>
  C2. The stated policy returns the dimension of smallest stride unless that dimension
  is small and another dimension has a strictly larger extent. \<open>OptimalProcessingDim\<close>
  does not follow it. With sizes \<open>[10, 10]\<close> and strides \<open>[10, 1]\<close> the dimension of
  smallest stride is 1 and no dimension is longer, so the policy selects 1 and only 1,
  yet 0 is returned: the guard \<open>dims[ii] > dims[processingDim]\<close> of the first branch
  keeps the earlier dimension of equal extent. With sizes \<open>[100, 100]\<close> and strides
  \<open>[1, -100]\<close> the dimension of smallest stride magnitude is 0, of extent above the
  threshold, so the policy selects 0 and only 0, yet 1 is returned: the strides are
  compared with their sign.
\<close>

theorem OptimalProcessingDim_breaks_policy:
  "OptimalProcessingDim (image_of [10, 10] [10, 1]) = 0
   \<and> SelectProcessingDimension_claimed (image_of [10, 10] [10, 1]) 1
   \<and> \<not> SelectProcessingDimension_claimed (image_of [10, 10] [10, 1]) 0
   \<and> OptimalProcessingDim (image_of [100, 100] [1, - 100]) = 1
   \<and> SelectProcessingDimension_claimed (image_of [100, 100] [1, - 100]) 0
   \<and> \<not> SelectProcessingDimension_claimed (image_of [100, 100] [1, - 100]) 1"
  by (simp add: SelectProcessingDimension_claimed_def OptimalProcessingDim_def image_of_def
      RefStrides_def RefDimensions_def first_min_index_def OptimalProcessingDim_loop.simps
      SMALL_IMAGE_def upt_rec)

section \<open>The value information of the feature\<close>

lemma all_less_list_all: "(\<forall>k<n. Q k) \<longleftrightarrow> list_all Q [0..<n]"
  by (auto simp: list_all_iff)

lemma sameUnits_loop_iff:
  "sameUnits_loop label pq n ii \<longleftrightarrow> (\<forall>k. ii \<le> k \<and> k < n \<longrightarrow> units (PixelSize label k) = units pq)"
proof (induction label pq n ii rule: sameUnits_loop.induct)
  case (1 label pq n ii)
  show ?case
  proof (cases "ii < n")
    case False
    then show ?thesis
      by (subst sameUnits_loop.simps) auto
  next
    case True
    show ?thesis
    proof (cases "units (PixelSize label ii) = units pq")
      case False
      with True show ?thesis
        by (subst sameUnits_loop.simps) auto
    next
      case eq: True
      have "(\<forall>k. ii + 1 \<le> k \<and> k < n \<longrightarrow> units (PixelSize label k) = units pq)
          \<longleftrightarrow> (\<forall>k. ii \<le> k \<and> k < n \<longrightarrow> units (PixelSize label k) = units pq)"
        proof (intro iffI allI impI)
        fix k
        assume a: "\<forall>k. ii + 1 \<le> k \<and> k < n \<longrightarrow> units (PixelSize label k) = units pq"
          and k: "ii \<le> k \<and> k < n"
        show "units (PixelSize label k) = units pq"
        proof (cases "k = ii")
          case True
          with eq show ?thesis by simp
        next
          case False
          with k have "ii + 1 \<le> k \<and> k < n" by simp
          with a show ?thesis by blast
        qed
      next
        fix k
        assume a: "\<forall>k. ii \<le> k \<and> k < n \<longrightarrow> units (PixelSize label k) = units pq"
          and k: "ii + 1 \<le> k \<and> k < n"
        then have "ii \<le> k \<and> k < n" by simp
        with a show "units (PixelSize label k) = units pq" by blast
      qed
      with True eq 1 show ?thesis
        by (subst sameUnits_loop.simps) simp
    qed
  qed
qed

text \<open>
  C9. Whenever \<open>Initialize\<close> accepts a label and a grey image, the returned array has
  one entry per dimension of the label image, and the units of every entry are the
  units of the pixel size when all axes share the same physical unit, and the
  pixel-count unit otherwise.
\<close>

theorem Initialize_units:
  assumes "Initialize unitsArePhysical Pixel self label grey nObjects = (self', Inr out)"
  shows "length out = Dimensionality label
       \<and> (\<forall>ii<length out. info_units (out ! ii) =
            (if share_physical_unit unitsArePhysical label then units (PixelSize label 0) else Pixel))"
proof -
  define n where "n = Dimensionality label"
  have sc: "IsScalar grey"
  proof (rule ccontr)
    assume "\<not> IsScalar grey"
    with assms show False by (simp add: Initialize_def)
  qed
  have n: "2 \<le> n" "n \<le> 3"
  proof -
    have "\<not> (n < 2 \<or> n > 3)"
    proof
      assume "n < 2 \<or> n > 3"
      with assms sc show False
        unfolding n_def by (simp add: Initialize_def Let_def)
    qed
    then show "2 \<le> n" "n \<le> 3" by simp_all
  qed
  define same where "same = (unitsArePhysical (units (PixelSize label 0))
      \<and> sameUnits_loop label (PixelSize label 0) n 1)"
  have same: "same \<longleftrightarrow> share_physical_unit unitsArePhysical label"
  proof -
    have "same \<longleftrightarrow> unitsArePhysical (units (PixelSize label 0))
        \<and> (\<forall>k. 1 \<le> k \<and> k < n \<longrightarrow> units (PixelSize label k) = units (PixelSize label 0))"
      by (simp add: same_def sameUnits_loop_iff)
    also have "\<dots> \<longleftrightarrow> (\<forall>k<n. unitsArePhysical (units (PixelSize label k))
        \<and> units (PixelSize label k) = units (PixelSize label 0))"
    proof (intro iffI allI impI conjI)
      fix k
      assume a: "unitsArePhysical (units (PixelSize label 0))
        \<and> (\<forall>k. 1 \<le> k \<and> k < n \<longrightarrow> units (PixelSize label k) = units (PixelSize label 0))"
        and k: "k < n"
      show "units (PixelSize label k) = units (PixelSize label 0)"
      proof (cases "k = 0")
        case True
        then show ?thesis by simp
      next
        case False
        with k have "1 \<le> k \<and> k < n" by simp
        with a show ?thesis by blast
      qed
      with a show "unitsArePhysical (units (PixelSize label k))" by simp
    next
      assume a: "\<forall>k<n. unitsArePhysical (units (PixelSize label k))
        \<and> units (PixelSize label k) = units (PixelSize label 0)"
      have "0 < n" using n by simp
      with a show "unitsArePhysical (units (PixelSize label 0))" by blast
    next
      fix k
      assume a: "\<forall>k<n. unitsArePhysical (units (PixelSize label k))
        \<and> units (PixelSize label k) = units (PixelSize label 0)"
        and k: "1 \<le> k \<and> k < n"
      then show "units (PixelSize label k) = units (PixelSize label 0)" by blast
    qed
    also have "\<dots> \<longleftrightarrow> list_all (\<lambda>k. unitsArePhysical (units (PixelSize label k))
        \<and> units (PixelSize label k) = units (PixelSize label 0)) [0..<n]"
      by (rule all_less_list_all)
    finally show ?thesis
      unfolding share_physical_unit_def n_def .
  qed
  have "Initialize unitsArePhysical Pixel self label grey nObjects =
      (self\<lparr>nD := n, inertiaIndex := - 1\<rparr>,
       Inr (map (\<lambda>ii. \<lparr>info_name = ''axis'' @ to_string ii,
        info_units = (if same then units (PixelSize label 0) else Pixel)\<rparr>) [0..<n]))"
    using sc n unfolding n_def same_def
    by (simp add: Initialize_def Let_def IsPhysical_def)
  with assms have out: "out = map (\<lambda>ii. \<lparr>info_name = ''axis'' @ to_string ii,
        info_units = (if same then units (PixelSize label 0) else Pixel)\<rparr>) [0..<n]"
    by simp
  have "length out = n
       \<and> (\<forall>ii<length out. info_units (out ! ii) =
            (if same then units (PixelSize label 0) else Pixel))"
    unfolding out by simp
  then show ?thesis
    unfolding same n_def .
qed

theorem Initialize_units_witness:
  "Initialize physical_name ''px'' \<lparr>inertiaIndex = 0, nD = 0\<rparr>
       (micron_image [30, 20] [1, 30]) (micron_image [30, 20] [1, 30]) 5
     = (\<lparr>inertiaIndex = - 1, nD = 2\<rparr>,
        Inr [\<lparr>info_name = ''axis0'', info_units = ''um''\<rparr>,
             \<lparr>info_name = ''axis1'', info_units = ''um''\<rparr>])
   \<and> share_physical_unit physical_name (micron_image [30, 20] [1, 30])
   \<and> Initialize physical_name ''px'' \<lparr>inertiaIndex = 0, nD = 0\<rparr>
       (mixed_image [30, 20, 10] [1, 30, 600]) (micron_image [30, 20, 10] [1, 30, 600]) 5
     = (\<lparr>inertiaIndex = - 1, nD = 3\<rparr>,
        Inr [\<lparr>info_name = ''axis0'', info_units = ''px''\<rparr>,
             \<lparr>info_name = ''axis1'', info_units = ''px''\<rparr>,
             \<lparr>info_name = ''axis2'', info_units = ''px''\<rparr>])
   \<and> \<not> share_physical_unit physical_name (mixed_image [30, 20, 10] [1, 30, 600])"
proof -
  have h1: "Initialize physical_name ''px'' \<lparr>inertiaIndex = 0, nD = 0\<rparr>
       (micron_image [30, 20] [1, 30]) (micron_image [30, 20] [1, 30]) 5
     = (\<lparr>inertiaIndex = - 1, nD = 2\<rparr>,
        Inr [\<lparr>info_name = ''axis0'', info_units = ''um''\<rparr>,
             \<lparr>info_name = ''axis1'', info_units = ''um''\<rparr>])"
    by (simp add: Initialize_def Let_def micron_image_def Dimensionality_def IsPhysical_def
        physical_name_def sameUnits_loop.simps to_string.simps upt_rec)
  have h2: "Initialize physical_name ''px'' \<lparr>inertiaIndex = 0, nD = 0\<rparr>
       (mixed_image [30, 20, 10] [1, 30, 600]) (micron_image [30, 20, 10] [1, 30, 600]) 5
     = (\<lparr>inertiaIndex = - 1, nD = 3\<rparr>,
        Inr [\<lparr>info_name = ''axis0'', info_units = ''px''\<rparr>,
             \<lparr>info_name = ''axis1'', info_units = ''px''\<rparr>,
             \<lparr>info_name = ''axis2'', info_units = ''px''\<rparr>])"
    by (simp add: Initialize_def Let_def micron_image_def mixed_image_def Dimensionality_def
        IsPhysical_def physical_name_def sameUnits_loop.simps to_string.simps upt_rec)
  have s1: "share_physical_unit physical_name (micron_image [30, 20] [1, 30])"
    by (simp add: share_physical_unit_def micron_image_def Dimensionality_def physical_name_def)
  have s2: "\<not> share_physical_unit physical_name (mixed_image [30, 20, 10] [1, 30, 600])"
    by (simp add: share_physical_unit_def mixed_image_def Dimensionality_def physical_name_def
        upt_rec)
  show ?thesis
    using Initialize_units [OF h1] Initialize_units [OF h2] h1 h2 s1 s2 by simp
qed

section \<open>Labeling counts the connected components\<close>

lemma edges_iff:
  "(a, c) \<in> set (edges nbrs b) \<longleftrightarrow>
     a < length b \<and> c < length b \<and> b ! a \<and> b ! c \<and> (c \<in> set (nbrs a) \<or> a \<in> set (nbrs c))"
  by (auto simp: edges_def split: if_splits)

lemma edges_sym: "(a, c) \<in> set (edges nbrs b) \<Longrightarrow> (c, a) \<in> set (edges nbrs b)"
  by (auto simp: edges_iff)

lemma edges_trancl_foreground:
  "(a, c) \<in> (set (edges nbrs b))\<^sup>+ \<Longrightarrow> a < length b \<and> c < length b \<and> b ! a \<and> b ! c"
  by (induction rule: trancl_induct) (auto simp: edges_iff)

lemma edges_trancl_sym:
  "(a, c) \<in> (set (edges nbrs b))\<^sup>+ \<Longrightarrow> (c, a) \<in> (set (edges nbrs b))\<^sup>+"
proof -
  have "sym (set (edges nbrs b))"
    by (auto intro!: symI edges_sym)
  then have "sym ((set (edges nbrs b))\<^sup>+)"
    by (rule sym_trancl)
  then show "(a, c) \<in> (set (edges nbrs b))\<^sup>+ \<Longrightarrow> ?thesis"
    by (rule symD)
qed

lemma connected_refl: "connected nbrs b p p"
  by (simp add: connected_def)

lemma connected_sym: "connected nbrs b p q \<Longrightarrow> connected nbrs b q p"
  by (auto simp: connected_def dest: edges_trancl_sym)

lemma connected_trans:
  "connected nbrs b p q \<Longrightarrow> connected nbrs b q r \<Longrightarrow> connected nbrs b p r"
  by (auto simp: connected_def intro: trancl_trans)

lemma connected_foreground:
  "connected nbrs b p q \<Longrightarrow> p \<noteq> q \<Longrightarrow> p < length b \<and> q < length b \<and> b ! p \<and> b ! q"
  by (auto simp: connected_def dest: edges_trancl_foreground)

lemma connected_eq: "connected nbrs b p q \<Longrightarrow> connected nbrs b p x = connected nbrs b q x"
  by (meson connected_sym connected_trans)

lemma set_component: "set (component nbrs b p) = {q. q < length b \<and> connected nbrs b p q}"
  by (auto simp: component_def)

lemma distinct_component: "distinct (component nbrs b p)"
  by (simp add: component_def)

lemma sorted_component: "sorted (component nbrs b p)"
  unfolding component_def by (rule sorted_wrt_filter) simp

lemma component_cong: "connected nbrs b p q \<Longrightarrow> component nbrs b p = component nbrs b q"
  unfolding component_def by (rule filter_cong) (simp_all add: connected_eq)

lemma sorted_hd_le: "sorted xs \<Longrightarrow> x \<in> set xs \<Longrightarrow> hd xs \<le> (x::nat)"
  by (cases xs) auto

lemma hd_component:
  assumes "p < length b"
  shows "hd (component nbrs b p) < length b" "connected nbrs b p (hd (component nbrs b p))"
    "hd (component nbrs b p) \<le> p"
    "\<And>q. q < length b \<Longrightarrow> connected nbrs b p q \<Longrightarrow> hd (component nbrs b p) \<le> q"
proof -
  have p: "p \<in> set (component nbrs b p)"
    using assms by (simp add: set_component connected_refl)
  then have "component nbrs b p \<noteq> []" by auto
  then have "hd (component nbrs b p) \<in> set (component nbrs b p)"
    by (rule hd_in_set)
  then show "hd (component nbrs b p) < length b" "connected nbrs b p (hd (component nbrs b p))"
    by (simp_all add: set_component)
  show "hd (component nbrs b p) \<le> p"
    using sorted_component p by (rule sorted_hd_le)
  show "hd (component nbrs b p) \<le> q" if "q < length b" "connected nbrs b p q" for q
  proof -
    have "q \<in> set (component nbrs b p)" using that by (simp add: set_component)
    with sorted_component show ?thesis by (rule sorted_hd_le)
  qed
qed

lemma first_pixels_iff:
  "r \<in> set (first_pixels nbrs b) \<longleftrightarrow>
     r < length b \<and> b ! r \<and> (\<forall>q<r. \<not> connected nbrs b q r)"
  by (auto simp: first_pixels_def list_all_iff)

lemma distinct_first_pixels: "distinct (first_pixels nbrs b)"
  by (simp add: first_pixels_def)

lemma hd_component_first:
  assumes "p < length b" "b ! p"
  shows "hd (component nbrs b p) \<in> set (first_pixels nbrs b)"
proof -
  let ?r = "hd (component nbrs b p)"
  note h = hd_component[OF assms(1), where nbrs = nbrs]
  have "b ! ?r"
    using h(2) assms(2) connected_foreground[of nbrs b p ?r] by (cases "p = ?r") auto
  moreover have "\<not> connected nbrs b q ?r" if "q < ?r" for q
  proof
    assume "connected nbrs b q ?r"
    then have "connected nbrs b p q"
      using h(2) connected_sym connected_trans by meson
    moreover have "q < length b" using that h(1) by simp
    ultimately have "?r \<le> q" by (rule h(4)[rotated])
    with that show False by simp
  qed
  ultimately show ?thesis
    using h(1) by (simp add: first_pixels_iff)
qed

lemma first_pixel_hd:
  assumes "r \<in> set (first_pixels nbrs b)"
  shows "hd (component nbrs b r) = r"
proof -
  from assms have r: "r < length b" "\<And>q. q < r \<Longrightarrow> \<not> connected nbrs b q r"
    by (simp_all add: first_pixels_iff)
  note h = hd_component[OF r(1), where nbrs = nbrs]
  have "\<not> hd (component nbrs b r) < r"
    using r(2) h(2) connected_sym by blast
  with h(3) show ?thesis by simp
qed


lemma count_below_strict:
  assumes d: "distinct xs" and x: "x \<in> set xs" and y: "y \<in> set xs" and lt: "x < (y::nat)"
  shows "length (filter (\<lambda>r. r \<le> x) xs) < length (filter (\<lambda>r. r \<le> y) xs)"
proof -
  have "y \<in> {r. r \<le> y} \<inter> set xs" "y \<notin> {r. r \<le> x} \<inter> set xs"
    using y lt by simp_all
  moreover have "{r. r \<le> x} \<inter> set xs \<subseteq> {r. r \<le> y} \<inter> set xs"
    using lt by auto
  ultimately have "{r. r \<le> x} \<inter> set xs \<subset> {r. r \<le> y} \<inter> set xs"
    by blast
  then have "card ({r. r \<le> x} \<inter> set xs) < card ({r. r \<le> y} \<inter> set xs)"
    by (intro psubset_card_mono) simp_all
  then show ?thesis
    using d by (simp add: distinct_length_filter)
qed

lemma count_below_inj:
  assumes "distinct (xs :: nat list)"
  shows "inj_on (\<lambda>x. length (filter (\<lambda>r. r \<le> x) xs)) (set xs)"
proof (rule inj_onI)
  fix x y :: nat
  assume xy: "x \<in> set xs" "y \<in> set xs"
    and eq: "length (filter (\<lambda>r. r \<le> x) xs) = length (filter (\<lambda>r. r \<le> y) xs)"
  show "x = y"
  proof (rule ccontr)
    assume "x \<noteq> y"
    then consider "x < y" | "y < x" by linarith
    then show False
      using count_below_strict[OF assms xy] count_below_strict[OF assms xy(2) xy(1)] eq
      by cases simp_all
  qed
qed

lemma count_below_nonempty:
  assumes "(x::nat) \<in> set xs"
  shows "filter (\<lambda>r. r \<le> x) xs \<noteq> []"
proof -
  have "x \<in> set (filter (\<lambda>r. r \<le> x) xs)" using assms by simp
  then show ?thesis by (metis empty_iff empty_set)
qed

lemma count_below_range:
  assumes "(x::nat) \<in> set xs"
  shows "length (filter (\<lambda>r. r \<le> x) xs) \<in> {1..length xs}"
  using count_below_nonempty[OF assms] by (simp add: Suc_le_eq)

lemma Label_count:
  "fst (Label b nbrs minSize maxSize) =
     length (filter (\<lambda>r. size_ok minSize maxSize (length (component nbrs b r))) (first_pixels nbrs b))"
  by (simp add: Label_def Let_def)

lemma Label_length: "length (snd (Label b nbrs minSize maxSize)) = length b"
  by (simp add: Label_def Let_def)

lemma Label_nth:
  "p < length b \<Longrightarrow>
   snd (Label b nbrs minSize maxSize) ! p =
     (if b ! p \<and> size_ok minSize maxSize (length (component nbrs b p))
      then length (filter (\<lambda>r. r \<le> hd (component nbrs b p)) (first_pixels nbrs b))
      else 0)"
  by (simp add: Label_def Let_def)

lemma Label_positive_iff:
  assumes "p < length b"
  shows "snd (Label b nbrs minSize maxSize) ! p \<noteq> 0 \<longleftrightarrow>
     b ! p \<and> size_ok minSize maxSize (length (component nbrs b p))"
proof (cases "b ! p")
  case True
  have "filter (\<lambda>r. r \<le> hd (component nbrs b p)) (first_pixels nbrs b) \<noteq> []"
    using hd_component_first[OF assms True] by (rule count_below_nonempty)
  with assms True show ?thesis by (simp add: Label_nth)
next
  case False
  with assms show ?thesis by (simp add: Label_nth)
qed

lemma Label_positive_set:
  "{l \<in> set (snd (Label b nbrs minSize maxSize)). 0 < l}
     = (\<lambda>x. length (filter (\<lambda>r. r \<le> x) (first_pixels nbrs b)))
         ` set (filter (\<lambda>r. size_ok minSize maxSize (length (component nbrs b r))) (first_pixels nbrs b))"
  (is "?L = ?f ` set ?S")
proof (intro set_eqI iffI)
  fix l assume "l \<in> ?L"
  then obtain p where p: "p < length b" "snd (Label b nbrs minSize maxSize) ! p = l" "0 < l"
    by (auto simp: in_set_conv_nth Label_length)
  then have fg: "b ! p" "size_ok minSize maxSize (length (component nbrs b p))"
    using Label_positive_iff[OF p(1), of nbrs minSize maxSize] by simp_all
  let ?r = "hd (component nbrs b p)"
  have r: "?r \<in> set (first_pixels nbrs b)"
    using p(1) fg(1) by (rule hd_component_first)
  have "component nbrs b ?r = component nbrs b p"
    using hd_component(2)[OF p(1)] by (rule component_cong[symmetric])
  with fg(2) r have "?r \<in> set ?S" by simp
  moreover have "l = ?f ?r"
    using p fg by (simp add: Label_nth)
  ultimately show "l \<in> ?f ` set ?S" by blast
next
  fix l assume "l \<in> ?f ` set ?S"
  then obtain r where r: "r \<in> set (first_pixels nbrs b)"
      "size_ok minSize maxSize (length (component nbrs b r))" "l = ?f r"
    by auto
  from r(1) have rb: "r < length b" "b ! r"
    by (simp_all add: first_pixels_iff)
  have "snd (Label b nbrs minSize maxSize) ! r = l"
    using rb r(2,3) first_pixel_hd[OF r(1)] by (simp add: Label_nth)
  moreover have "0 < l"
    using count_below_nonempty[OF r(1)] r(3) by simp
  ultimately show "l \<in> ?L"
    using rb(1) by (auto simp: in_set_conv_nth Label_length)
qed

lemma connected_components_first:
  "connected_components nbrs b = (\<lambda>r. set (component nbrs b r)) ` set (first_pixels nbrs b)"
proof (intro set_eqI iffI)
  fix C assume "C \<in> connected_components nbrs b"
  then obtain p where p: "p < length b" "b ! p" "C = set (component nbrs b p)"
    by (auto simp: connected_components_def set_component)
  have "component nbrs b (hd (component nbrs b p)) = component nbrs b p"
    using hd_component(2)[OF p(1)] by (rule component_cong[symmetric])
  with p hd_component_first[OF p(1,2), of nbrs]
  show "C \<in> (\<lambda>r. set (component nbrs b r)) ` set (first_pixels nbrs b)"
    by (metis imageI)
next
  fix C assume "C \<in> (\<lambda>r. set (component nbrs b r)) ` set (first_pixels nbrs b)"
  then obtain r where "r \<in> set (first_pixels nbrs b)" "C = set (component nbrs b r)"
    by auto
  then show "C \<in> connected_components nbrs b"
    by (auto simp: connected_components_def set_component first_pixels_iff)
qed

lemma component_inj_on_first:
  "inj_on (\<lambda>r. set (component nbrs b r)) (set (first_pixels nbrs b))"
proof (rule inj_onI)
  fix r s
  assume rs: "r \<in> set (first_pixels nbrs b)" "s \<in> set (first_pixels nbrs b)"
    and eq: "set (component nbrs b r) = set (component nbrs b s)"
  from rs have lt: "r < length b" "s < length b"
    by (simp_all add: first_pixels_iff)
  then have "s \<in> set (component nbrs b s)"
    by (simp add: set_component connected_refl)
  with eq have "s \<in> set (component nbrs b r)"
    by simp
  then have "connected nbrs b r s"
    by (simp add: set_component)
  then have "component nbrs b r = component nbrs b s"
    by (rule component_cong)
  then have "hd (component nbrs b r) = hd (component nbrs b s)"
    by (rule arg_cong)
  then show "r = s"
    by (simp only: first_pixel_hd[OF rs(1)] first_pixel_hd[OF rs(2)])
qed

lemma Label_count_and_range:
  "fst (Label b nbrs minSize maxSize)
     = card {C \<in> connected_components nbrs b. size_ok minSize maxSize (card C)}
   \<and> length (snd (Label b nbrs minSize maxSize)) = length b
   \<and> (\<forall>p<length b. \<not> b ! p \<longrightarrow> snd (Label b nbrs minSize maxSize) ! p = 0)
   \<and> {l \<in> set (snd (Label b nbrs minSize maxSize)). 0 < l} \<subseteq> {1..card (connected_components nbrs b)}
   \<and> card {l \<in> set (snd (Label b nbrs minSize maxSize)). 0 < l}
       = card {C \<in> connected_components nbrs b. size_ok minSize maxSize (card C)}"
proof -
  let ?F = "first_pixels nbrs b"
  let ?S = "filter (\<lambda>r. size_ok minSize maxSize (length (component nbrs b r))) ?F"
  let ?cls = "\<lambda>r. set (component nbrs b r)"
  have dS: "distinct ?S"
    using distinct_first_pixels by simp
  have M: "card (connected_components nbrs b) = length ?F"
    unfolding connected_components_first
    by (simp add: card_image component_inj_on_first distinct_card distinct_first_pixels)
  have "{C \<in> connected_components nbrs b. size_ok minSize maxSize (card C)} = ?cls ` set ?S"
    unfolding connected_components_first
    by (auto simp: distinct_card distinct_component)
  moreover have "inj_on ?cls (set ?S)"
    by (rule inj_on_subset[OF component_inj_on_first]) auto
  then have "card (?cls ` set ?S) = card (set ?S)"
    by (rule card_image)
  moreover have cS: "card (set ?S) = length ?S"
    using dS by (rule distinct_card)
  ultimately have K: "card {C \<in> connected_components nbrs b. size_ok minSize maxSize (card C)}
      = length ?S"
    by (simp only:)
  have count: "fst (Label b nbrs minSize maxSize) = length ?S"
    by (rule Label_count)
  have bg: "\<forall>p<length b. \<not> b ! p \<longrightarrow> snd (Label b nbrs minSize maxSize) ! p = 0"
    by (simp add: Label_nth)
  have range: "{l \<in> set (snd (Label b nbrs minSize maxSize)). 0 < l} \<subseteq> {1..length ?F}"
    unfolding Label_positive_set using count_below_range[of _ ?F] by auto
  have "inj_on (\<lambda>x. length (filter (\<lambda>r. r \<le> x) ?F)) (set ?S)"
    by (rule inj_on_subset[OF count_below_inj[OF distinct_first_pixels]]) auto
  then have "card ((\<lambda>x. length (filter (\<lambda>r. r \<le> x) ?F)) ` set ?S) = card (set ?S)"
    by (rule card_image)
  then have cardpos: "card {l \<in> set (snd (Label b nbrs minSize maxSize)). 0 < l} = length ?S"
    unfolding Label_positive_set by (simp only: cS)
  show ?thesis
    using count K M bg range cardpos Label_length[of b nbrs minSize maxSize] by simp
qed

lemma size_ok_unbounded: "size_ok 0 0 s"
  by (simp add: size_ok_def)

lemma Label_unfiltered_nth:
  "p < length b \<Longrightarrow>
   snd (Label b nbrs 0 0) ! p =
     (if b ! p then length (filter (\<lambda>r. r \<le> hd (component nbrs b p)) (first_pixels nbrs b)) else 0)"
  by (simp add: Label_nth size_ok_unbounded)

lemma Label_keeps_unfiltered_label:
  assumes "p < length b"
  shows "snd (Label b nbrs minSize maxSize) ! p =
     (if b ! p \<and> size_ok minSize maxSize (card {q. q < length b \<and> connected nbrs b p q})
      then snd (Label b nbrs 0 0) ! p else 0)"
proof -
  have "card {q. q < length b \<and> connected nbrs b p q} = length (component nbrs b p)"
    using distinct_card[OF distinct_component, of nbrs b p] by (simp only: set_component)
  then show ?thesis
    using assms by (simp add: Label_nth size_ok_unbounded)
qed

lemma Label_unfiltered_positive_set:
  "{l \<in> set (snd (Label b nbrs 0 0)). 0 < l} = {1..card (connected_components nbrs b)}"
proof -
  let ?F = "first_pixels nbrs b"
  let ?f = "\<lambda>x. length (filter (\<lambda>r. r \<le> x) ?F)"
  have M: "card (connected_components nbrs b) = length ?F"
    unfolding connected_components_first
    by (simp add: card_image component_inj_on_first distinct_card distinct_first_pixels)
  have "filter (\<lambda>r. size_ok 0 0 (length (component nbrs b r))) ?F = ?F"
    by (simp add: size_ok_unbounded)
  then have pos: "{l \<in> set (snd (Label b nbrs 0 0)). 0 < l} = ?f ` set ?F"
    using Label_positive_set[of b nbrs 0 0] by (simp only:)
  have "?f ` set ?F = {1..length ?F}"
  proof (rule card_subset_eq)
    show "finite {1..length ?F}" by simp
    show "?f ` set ?F \<subseteq> {1..length ?F}"
      using count_below_range[of _ ?F] by blast
    have "card (?f ` set ?F) = card (set ?F)"
      using count_below_inj[OF distinct_first_pixels] by (rule card_image)
    also have "\<dots> = length ?F"
      using distinct_first_pixels by (rule distinct_card)
    finally show "card (?f ` set ?F) = card {1..length ?F}" by simp
  qed
  with pos M show ?thesis by (simp only:)
qed

lemma Label_unfiltered_same_label:
  assumes p: "p < length b" "b ! p" and q: "q < length b" "b ! q"
  shows "snd (Label b nbrs 0 0) ! p = snd (Label b nbrs 0 0) ! q \<longleftrightarrow> connected nbrs b p q"
proof -
  let ?F = "first_pixels nbrs b"
  let ?rp = "hd (component nbrs b p)" and ?rq = "hd (component nbrs b q)"
  have rp: "?rp \<in> set ?F" using p by (rule hd_component_first)
  have rq: "?rq \<in> set ?F" using q by (rule hd_component_first)
  have "snd (Label b nbrs 0 0) ! p = snd (Label b nbrs 0 0) ! q
      \<longleftrightarrow> length (filter (\<lambda>r. r \<le> ?rp) ?F) = length (filter (\<lambda>r. r \<le> ?rq) ?F)"
    using p q by (simp add: Label_unfiltered_nth)
  also have "\<dots> \<longleftrightarrow> ?rp = ?rq"
    using inj_onD[OF count_below_inj[OF distinct_first_pixels[of nbrs b]], of ?rp ?rq] rp rq
    by auto
  also have "\<dots> \<longleftrightarrow> connected nbrs b p q"
  proof
    assume eq: "?rp = ?rq"
    have "connected nbrs b p ?rp" using p(1) by (rule hd_component(2))
    moreover have "connected nbrs b ?rq q"
      using hd_component(2)[OF q(1)] by (rule connected_sym)
    ultimately show "connected nbrs b p q"
      unfolding eq by (rule connected_trans)
  next
    assume "connected nbrs b p q"
    then have "component nbrs b p = component nbrs b q" by (rule component_cong)
    then show "?rp = ?rq" by (rule arg_cong)
  qed
  finally show ?thesis .
qed

text \<open>
  C4. \<open>Label\<close> returns the number \<open>K\<close> of connected components whose size lies within
  \<open>[minSize, maxSize]\<close> (0 disabling a bound), and background pixels are 0. Before size
  filtering the labels are exactly \<open>1..M\<close>, with \<open>M\<close> the number of connected components,
  and two foreground pixels carry the same label exactly when they are connected.
  Size filtering does not renumber: a pixel of a component within the bounds keeps the
  label it has without filtering, every other pixel is 0. So the positive values
  present are a \<open>K\<close>-element subset of \<open>1..M\<close>.
\<close>

theorem Label_counts_components:
  "fst (Label b nbrs minSize maxSize)
     = card {C \<in> connected_components nbrs b. size_ok minSize maxSize (card C)}
   \<and> length (snd (Label b nbrs minSize maxSize)) = length b
   \<and> (\<forall>p<length b. \<not> b ! p \<longrightarrow> snd (Label b nbrs minSize maxSize) ! p = 0)
   \<and> {l \<in> set (snd (Label b nbrs 0 0)). 0 < l} = {1..card (connected_components nbrs b)}
   \<and> (\<forall>p<length b. \<forall>q<length b. b ! p \<longrightarrow> b ! q \<longrightarrow>
         (snd (Label b nbrs 0 0) ! p = snd (Label b nbrs 0 0) ! q \<longleftrightarrow> connected nbrs b p q))
   \<and> (\<forall>p<length b. snd (Label b nbrs minSize maxSize) ! p =
         (if b ! p \<and> size_ok minSize maxSize (card {q. q < length b \<and> connected nbrs b p q})
          then snd (Label b nbrs 0 0) ! p else 0))
   \<and> {l \<in> set (snd (Label b nbrs minSize maxSize)). 0 < l} \<subseteq> {1..card (connected_components nbrs b)}
   \<and> card {l \<in> set (snd (Label b nbrs minSize maxSize)). 0 < l}
       = card {C \<in> connected_components nbrs b. size_ok minSize maxSize (card C)}"
proof -
  note c = Label_count_and_range [of b nbrs minSize maxSize]
  have same: "\<forall>p<length b. \<forall>q<length b. b ! p \<longrightarrow> b ! q \<longrightarrow>
         (snd (Label b nbrs 0 0) ! p = snd (Label b nbrs 0 0) ! q \<longleftrightarrow> connected nbrs b p q)"
    using Label_unfiltered_same_label by blast
  have keep: "\<forall>p<length b. snd (Label b nbrs minSize maxSize) ! p =
         (if b ! p \<and> size_ok minSize maxSize (card {q. q < length b \<and> connected nbrs b p q})
          then snd (Label b nbrs 0 0) ! p else 0)"
    using Label_keeps_unfiltered_label by blast
  show ?thesis
  proof (intro conjI)
    show "fst (Label b nbrs minSize maxSize)
       = card {C \<in> connected_components nbrs b. size_ok minSize maxSize (card C)}"
      by (rule conjunct1[OF c])
    show "length (snd (Label b nbrs minSize maxSize)) = length b"
      by (rule Label_length)
    show "\<forall>p<length b. \<not> b ! p \<longrightarrow> snd (Label b nbrs minSize maxSize) ! p = 0"
      by (rule conjunct1[OF conjunct2[OF conjunct2[OF c]]])
    show "{l \<in> set (snd (Label b nbrs 0 0)). 0 < l} = {1..card (connected_components nbrs b)}"
      by (rule Label_unfiltered_positive_set)
    show "\<forall>p<length b. \<forall>q<length b. b ! p \<longrightarrow> b ! q \<longrightarrow>
         (snd (Label b nbrs 0 0) ! p = snd (Label b nbrs 0 0) ! q \<longleftrightarrow> connected nbrs b p q)"
      by (rule same)
    show "\<forall>p<length b. snd (Label b nbrs minSize maxSize) ! p =
         (if b ! p \<and> size_ok minSize maxSize (card {q. q < length b \<and> connected nbrs b p q})
          then snd (Label b nbrs 0 0) ! p else 0)"
      by (rule keep)
    show "{l \<in> set (snd (Label b nbrs minSize maxSize)). 0 < l}
        \<subseteq> {1..card (connected_components nbrs b)}"
      by (rule conjunct1[OF conjunct2[OF conjunct2[OF conjunct2[OF c]]]])
    show "card {l \<in> set (snd (Label b nbrs minSize maxSize)). 0 < l}
       = card {C \<in> connected_components nbrs b. size_ok minSize maxSize (card C)}"
      by (rule conjunct2[OF conjunct2[OF conjunct2[OF conjunct2[OF c]]]])
  qed
qed

theorem Label_counts_components_witness:
  "Label [True, False, True, True] line_nbrs 2 0 = (1, [0, 0, 2, 2])
   \<and> Label [True, False, True, True] line_nbrs 0 0 = (2, [1, 0, 2, 2])
   \<and> fst (Label [True, False, True, True] line_nbrs 2 0)
       = card {C \<in> connected_components line_nbrs [True, False, True, True]. size_ok 2 0 (card C)}
   \<and> {l \<in> set (snd (Label [True, False, True, True] line_nbrs 0 0)). 0 < l}
       = {1..card (connected_components line_nbrs [True, False, True, True])}
   \<and> snd (Label [True, False, True, True] line_nbrs 2 0) ! 2 =
        (if [True, False, True, True] ! 2
            \<and> size_ok 2 0 (card {q. q < length [True, False, True, True]
                                   \<and> connected line_nbrs [True, False, True, True] 2 q})
         then snd (Label [True, False, True, True] line_nbrs 0 0) ! 2 else 0)
   \<and> snd (Label [True, False, True, True] line_nbrs 2 0) ! 1 = 0"
proof -
  note t = Label_counts_components [of "[True, False, True, True]" line_nbrs 2 0]
  have keep: "\<forall>p<length [True, False, True, True].
      snd (Label [True, False, True, True] line_nbrs 2 0) ! p =
        (if [True, False, True, True] ! p
            \<and> size_ok 2 0 (card {q. q < length [True, False, True, True]
                                   \<and> connected line_nbrs [True, False, True, True] p q})
         then snd (Label [True, False, True, True] line_nbrs 0 0) ! p else 0)"
    by (rule conjunct1[OF conjunct2[OF conjunct2[OF conjunct2[OF conjunct2[OF conjunct2[OF t]]]]]])
  have bg: "\<forall>p<length [True, False, True, True]. \<not> [True, False, True, True] ! p \<longrightarrow>
      snd (Label [True, False, True, True] line_nbrs 2 0) ! p = 0"
    by (rule conjunct1[OF conjunct2[OF conjunct2[OF t]]])
  show ?thesis
  proof (intro conjI)
    show "Label [True, False, True, True] line_nbrs 2 0 = (1, [0, 0, 2, 2])"
      by code_simp
    show "Label [True, False, True, True] line_nbrs 0 0 = (2, [1, 0, 2, 2])"
      by code_simp
    show "fst (Label [True, False, True, True] line_nbrs 2 0)
       = card {C \<in> connected_components line_nbrs [True, False, True, True]. size_ok 2 0 (card C)}"
      by (rule conjunct1[OF t])
    show "{l \<in> set (snd (Label [True, False, True, True] line_nbrs 0 0)). 0 < l}
       = {1..card (connected_components line_nbrs [True, False, True, True])}"
      by (rule conjunct1[OF conjunct2[OF conjunct2[OF conjunct2[OF t]]]])
    show "snd (Label [True, False, True, True] line_nbrs 2 0) ! 2 =
        (if [True, False, True, True] ! 2
            \<and> size_ok 2 0 (card {q. q < length [True, False, True, True]
                                   \<and> connected line_nbrs [True, False, True, True] 2 q})
         then snd (Label [True, False, True, True] line_nbrs 0 0) ! 2 else 0)"
      using keep by simp
    show "snd (Label [True, False, True, True] line_nbrs 2 0) ! 1 = 0"
      using bg by simp
  qed
qed

section \<open>Removing small objects twice\<close>

lemma SmallObjectsRemove_binary_nth:
  assumes "p < length b"
  shows "map (\<lambda>l. l \<noteq> 0) (snd (Label b nbrs t 0)) ! p
     \<longleftrightarrow> b ! p \<and> size_ok t 0 (length (component nbrs b p))"
  using assms Label_positive_iff[OF assms, of nbrs t 0] by (simp add: Label_length)

lemma kept_connected:
  assumes len: "length b' = length b"
    and b': "\<And>p. p < length b \<Longrightarrow> b' ! p \<longleftrightarrow> b ! p \<and> P (length (component nbrs b p))"
    and p: "p < length b" "b' ! p"
  shows "connected nbrs b' p q \<longleftrightarrow> connected nbrs b p q"
proof
  assume "connected nbrs b' p q"
  moreover have "set (edges nbrs b') \<subseteq> set (edges nbrs b)"
    using len b' by (auto simp: edges_iff)
  then have "(set (edges nbrs b'))\<^sup>+ \<subseteq> (set (edges nbrs b))\<^sup>+"
    by (rule trancl_mono_subset)
  ultimately show "connected nbrs b p q"
    by (auto simp: connected_def)
next
  assume c: "connected nbrs b p q"
  have kept: "b' ! x" if "connected nbrs b p x" "x < length b" for x
  proof -
    have "component nbrs b p = component nbrs b x"
      using that(1) by (rule component_cong)
    moreover have "b ! x"
      using that(1) p b'[OF p(1)] connected_foreground[OF that(1)] by (cases "p = x") auto
    ultimately show ?thesis
      using b'[OF that(2)] b'[OF p(1)] p(2) by simp
  qed
  have "(p, q) \<in> (set (edges nbrs b))\<^sup>+ \<Longrightarrow> (p, q) \<in> (set (edges nbrs b'))\<^sup>+"
  proof (induction rule: trancl_induct)
    case (base y)
    then have y: "y < length b" "connected nbrs b p y"
      by (auto simp: edges_iff connected_def)
    then have "b' ! y" using kept by blast
    with base p len have "(p, y) \<in> set (edges nbrs b')"
      by (simp add: edges_iff)
    then show ?case by (rule r_into_trancl)
  next
    case (step y z)
    from step.hyps(1) have cy: "connected nbrs b p y"
      by (simp add: connected_def)
    from step.hyps(2) have e: "y < length b" "z < length b"
      by (simp_all add: edges_iff)
    have cz: "connected nbrs b p z"
      using step.hyps by (auto simp: connected_def intro: trancl_into_trancl)
    have "b' ! y" "b' ! z"
      using kept cy cz e by blast+
    with step.hyps(2) len have "(y, z) \<in> set (edges nbrs b')"
      by (simp add: edges_iff)
    with step.IH show ?case by (rule trancl_into_trancl)
  qed
  with c show "connected nbrs b' p q"
    by (auto simp: connected_def)
qed

text \<open>
  C7. On a binary image, applying \<open>SmallObjectsRemove\<close> twice with the same threshold
  and connectivity gives the result of applying it once.
\<close>

theorem SmallObjectsRemove_idempotent:
  "SmallObjectsRemove (SmallObjectsRemove (Binary b) threshold nbrs) threshold nbrs
     = SmallObjectsRemove (Binary b) threshold nbrs"
proof -
  define b' where "b' = map (\<lambda>l. l \<noteq> 0) (snd (Label b nbrs threshold 0))"
  define b'' where "b'' = map (\<lambda>l. l \<noteq> 0) (snd (Label b' nbrs threshold 0))"
  have len: "length b' = length b"
    by (simp add: b'_def Label_length)
  have len': "length b'' = length b'"
    by (simp add: b''_def Label_length)
  have nth: "b' ! p \<longleftrightarrow> b ! p \<and> size_ok threshold 0 (length (component nbrs b p))"
    if "p < length b" for p
    unfolding b'_def using that by (rule SmallObjectsRemove_binary_nth)
  have nth': "b'' ! p \<longleftrightarrow> b' ! p \<and> size_ok threshold 0 (length (component nbrs b' p))"
    if "p < length b'" for p
    unfolding b''_def using that by (rule SmallObjectsRemove_binary_nth)
  have "b'' = b'"
  proof (rule nth_equalityI)
    show "length b'' = length b'" by (rule len')
    fix p assume "p < length b''"
    then have p: "p < length b" using len len' by simp
    show "b'' ! p = b' ! p"
    proof (cases "b' ! p")
      case False
      then show ?thesis using nth'[of p] p len by simp
    next
      case True
      have "connected nbrs b' p q \<longleftrightarrow> connected nbrs b p q" for q
        using len nth p True by (rule kept_connected)
      then have "component nbrs b' p = component nbrs b p"
        unfolding component_def len by (intro filter_cong) simp_all
      then show ?thesis
        using True nth[OF p] nth'[of p] p len by simp
    qed
  qed
  then show ?thesis
    by (simp add: SmallObjectsRemove_def b'_def b''_def)
qed

theorem SmallObjectsRemove_idempotent_witness:
  "SmallObjectsRemove (Binary [True, True, False, True]) 2 line_nbrs
     = Binary [True, True, False, False]
   \<and> SmallObjectsRemove (SmallObjectsRemove (Binary [True, True, False, True]) 2 line_nbrs)
       2 line_nbrs = Binary [True, True, False, False]"
proof -
  have "Label [True, True, False, True] line_nbrs 2 0 = (1, [1, 1, 0, 0])"
    by code_simp
  then have once: "SmallObjectsRemove (Binary [True, True, False, True]) 2 line_nbrs
     = Binary [True, True, False, False]"
    by (simp add: SmallObjectsRemove_def)
  show ?thesis
    using SmallObjectsRemove_idempotent [of "[True, True, False, True]" 2 line_nbrs] once
    by (simp only:)
qed

section \<open>Relabeling\<close>

lemma Relabel_nth:
  "i < length label \<Longrightarrow>
   Relabel label ! i = (if label ! i = 0 then 0 else card {l \<in> positive_labels label. l \<le> label ! i})"
proof -
  have "length (remdups (filter (\<lambda>l. 0 < l \<and> l \<le> v) label))
      = card {l \<in> positive_labels label. l \<le> v}" for v
  proof -
    have "set (filter (\<lambda>l. 0 < l \<and> l \<le> v) label) = {l \<in> positive_labels label. l \<le> v}"
      by (auto simp: positive_labels_def)
    then show ?thesis
      by (metis length_remdups_card_conv)
  qed
  then show "i < length label \<Longrightarrow> ?thesis"
    by (simp add: Relabel_def)
qed

lemma finite_positive_labels: "finite (positive_labels label)"
  by (simp add: positive_labels_def)

lemma rank_strict_mono:
  assumes "v \<in> positive_labels label" "w \<in> positive_labels label" "v < w"
  shows "card {l \<in> positive_labels label. l \<le> v} < card {l \<in> positive_labels label. l \<le> w}"
proof (rule psubset_card_mono)
  show "finite {l \<in> positive_labels label. l \<le> w}"
    using finite_positive_labels by simp
  have "w \<in> {l \<in> positive_labels label. l \<le> w}" "w \<notin> {l \<in> positive_labels label. l \<le> v}"
    using assms by simp_all
  moreover have "{l \<in> positive_labels label. l \<le> v} \<subseteq> {l \<in> positive_labels label. l \<le> w}"
    using assms(3) by auto
  ultimately show "{l \<in> positive_labels label. l \<le> v} \<subset> {l \<in> positive_labels label. l \<le> w}"
    by blast
qed

lemma rank_range:
  assumes "v \<in> positive_labels label"
  shows "card {l \<in> positive_labels label. l \<le> v} \<in> {1..card (positive_labels label)}"
proof -
  have "v \<in> {l \<in> positive_labels label. l \<le> v}" using assms by simp
  moreover have fin: "finite {l \<in> positive_labels label. l \<le> v}"
    using finite_positive_labels by simp
  ultimately have "0 < card {l \<in> positive_labels label. l \<le> v}"
    by (metis card_gt_0_iff empty_iff)
  moreover have "card {l \<in> positive_labels label. l \<le> v} \<le> card (positive_labels label)"
    by (intro card_mono finite_positive_labels) auto
  ultimately show ?thesis by simp
qed

lemma rank_image:
  "(\<lambda>v. card {l \<in> positive_labels label. l \<le> v}) ` positive_labels label
     = {1..card (positive_labels label)}"
proof (rule card_subset_eq)
  show "finite {1..card (positive_labels label)}" by simp
  show "(\<lambda>v. card {l \<in> positive_labels label. l \<le> v}) ` positive_labels label
      \<subseteq> {1..card (positive_labels label)}"
    using rank_range by blast
  have "inj_on (\<lambda>v. card {l \<in> positive_labels label. l \<le> v}) (positive_labels label)"
  proof (rule inj_onI)
    fix v w
    assume vw: "v \<in> positive_labels label" "w \<in> positive_labels label"
      and eq: "card {l \<in> positive_labels label. l \<le> v} = card {l \<in> positive_labels label. l \<le> w}"
    show "v = w"
    proof (rule ccontr)
      assume "v \<noteq> w"
      then consider "v < w" | "w < v" by linarith
      then show False
        using rank_strict_mono[OF vw(1) vw(2)] rank_strict_mono[OF vw(2) vw(1)] eq
        by cases simp_all
    qed
  qed
  then show "card ((\<lambda>v. card {l \<in> positive_labels label. l \<le> v}) ` positive_labels label)
      = card {1..card (positive_labels label)}"
    by (simp add: card_image)
qed

text \<open>
  C5. For a label image with \<open>K\<close> distinct positive labels, the positive values of
  \<open>Relabel\<close>'s result are exactly \<open>1..K\<close>, the order of the original label values is
  preserved, and a pixel is background after \<open>Relabel\<close> exactly when it was before.
\<close>

theorem Relabel_contiguous:
  "length (Relabel label) = length label
   \<and> {v \<in> set (Relabel label). 0 < v} = {1..card (positive_labels label)}
   \<and> (\<forall>i<length label. \<forall>j<length label.
         (label ! i < label ! j \<longleftrightarrow> Relabel label ! i < Relabel label ! j))
   \<and> (\<forall>i<length label. label ! i = 0 \<longleftrightarrow> Relabel label ! i = 0)"
proof (intro conjI allI impI)
  show len: "length (Relabel label) = length label"
    by (simp add: Relabel_def)
  have pos: "label ! i \<in> positive_labels label" if "i < length label" "label ! i \<noteq> 0" for i
    using that by (simp add: positive_labels_def)
  have rpos: "0 < card {l \<in> positive_labels label. l \<le> v}" if "v \<in> positive_labels label" for v
    using rank_range[OF that] by simp
  show zero: "label ! i = 0 \<longleftrightarrow> Relabel label ! i = 0" if "i < length label" for i
    using that pos[OF that] rpos[of "label ! i"] by (auto simp: Relabel_nth)
  show "label ! i < label ! j \<longleftrightarrow> Relabel label ! i < Relabel label ! j"
    if ij: "i < length label" "j < length label" for i j
  proof (cases "label ! j = 0")
    case True
    then show ?thesis using ij by (simp add: Relabel_nth)
  next
    case j0: False
    show ?thesis
    proof (cases "label ! i = 0")
      case True
      then show ?thesis
        using ij j0 rpos[OF pos[OF ij(2) j0]] by (simp add: Relabel_nth)
    next
      case i0: False
      note pi = pos[OF ij(1) i0] and pj = pos[OF ij(2) j0]
      have "label ! i < label ! j \<Longrightarrow> ?thesis"
        using rank_strict_mono[OF pi pj] ij i0 j0 by (simp add: Relabel_nth)
      moreover have "label ! j < label ! i \<Longrightarrow> ?thesis"
        using rank_strict_mono[OF pj pi] ij i0 j0 by (simp add: Relabel_nth)
      moreover have "label ! i = label ! j \<Longrightarrow> ?thesis"
        using ij by (simp add: Relabel_nth)
      ultimately show ?thesis by linarith
    qed
  qed
  show "{v \<in> set (Relabel label). 0 < v} = {1..card (positive_labels label)}"
  proof -
    have "{v \<in> set (Relabel label). 0 < v}
        = (\<lambda>v. card {l \<in> positive_labels label. l \<le> v}) ` positive_labels label"
    proof (intro set_eqI iffI)
      fix x assume "x \<in> {v \<in> set (Relabel label). 0 < v}"
      then obtain i where i: "i < length label" "Relabel label ! i = x" "0 < x"
        using len by (auto simp: in_set_conv_nth)
      then have "label ! i \<noteq> 0" using zero[of i] by auto
      with i pos[of i] show "x \<in> (\<lambda>v. card {l \<in> positive_labels label. l \<le> v}) ` positive_labels label"
        by (auto simp: Relabel_nth)
    next
      fix x assume "x \<in> (\<lambda>v. card {l \<in> positive_labels label. l \<le> v}) ` positive_labels label"
      then obtain v where v: "v \<in> positive_labels label" "x = card {l \<in> positive_labels label. l \<le> v}"
        by blast
      then obtain i where i: "i < length label" "label ! i = v" "0 < v"
        by (auto simp: positive_labels_def in_set_conv_nth)
      then have "Relabel label ! i = x" using v by (simp add: Relabel_nth)
      with i len rpos[OF v(1)] v(2) show "x \<in> {v \<in> set (Relabel label). 0 < v}"
        by (auto simp: in_set_conv_nth)
    qed
    then show ?thesis by (simp only: rank_image)
  qed
qed

theorem Relabel_contiguous_witness:
  "Relabel [0, 7, 3, 3, 0, 12, 7] = [0, 2, 1, 1, 0, 3, 2]
   \<and> {v \<in> set (Relabel [0, 7, 3, 3, 0, 12, 7]). 0 < v} = {1..3}"
proof -
  have c: "card (positive_labels [0, 7, 3, 3, 0, 12, 7]) = 3"
    by (simp add: positive_labels_def card_insert_if)
  have r: "Relabel [0, 7, 3, 3, 0, 12, 7] = [0, 2, 1, 1, 0, 3, 2]"
    by (simp add: Relabel_def)
  show ?thesis
    using Relabel_contiguous [of "[0, 7, 3, 3, 0, 12, 7]"] c r by simp
qed

section \<open>Growing regions\<close>

lemma grow_step_line_1: "grow_step line_nbrs None [Suc 0, 0, 0] = [Suc 0, Suc 0, 0]"
  by (simp add: grow_step_def neighbor_labels_def inside_mask_def line_nbrs_def upt_rec)

lemma grow_step_line_2: "grow_step line_nbrs None [Suc 0, Suc 0, 0] = [Suc 0, Suc 0, Suc 0]"
  by (simp add: grow_step_def neighbor_labels_def inside_mask_def line_nbrs_def upt_rec)

lemma grow_step_line_3: "grow_step line_nbrs None [Suc 0, Suc 0, Suc 0] = [Suc 0, Suc 0, Suc 0]"
  by (simp add: grow_step_def neighbor_labels_def inside_mask_def line_nbrs_def upt_rec)

lemma grow_until_stable_line:
  "grow_until_stable (fixed_nbrs line_nbrs) None 0 [Suc 0, 0, 0] = [Suc 0, Suc 0, Suc 0]"
proof -
  have "grow_until_stable (fixed_nbrs line_nbrs) None (Suc (Suc 0)) [Suc 0, Suc 0, Suc 0] = [Suc 0, Suc 0, Suc 0]"
    by (subst grow_until_stable.simps) (simp add: grow_step_line_3 fixed_nbrs_def)
  then have "grow_until_stable (fixed_nbrs line_nbrs) None (Suc 0) [Suc 0, Suc 0, 0] = [Suc 0, Suc 0, Suc 0]"
    by (subst grow_until_stable.simps) (simp add: grow_step_line_2 fixed_nbrs_def)
  then show ?thesis
    by (subst grow_until_stable.simps) (simp add: grow_step_line_1 fixed_nbrs_def)
qed

lemma GrowRegions_line_fixed_point: "GrowRegions [1, 0, 0] None (fixed_nbrs line_nbrs) 0 = [1, 1, 1]"
  by (simp add: GrowRegions_def grow_until_stable_line)

lemma GrowRegions_line_one_step: "GrowRegions [1, 0, 0] None (fixed_nbrs line_nbrs) (0 + 1) = [1, 1, 0]"
  by (simp add: GrowRegions_def grow_step_line_1 fixed_nbrs_def)

lemma nonbackground_line_full: "nonbackground [1, 1, 1] = {0, 1, 2}"
  by (auto simp add: nonbackground_def)

lemma nonbackground_line_two: "nonbackground [1, 1, 0] = {0, 1}"
  by (auto simp add: nonbackground_def)

text \<open>
  C6. As stated, for every iteration count \<open>n\<close>, the claim fails at \<open>n = 0\<close>, where
  \<open>iterations = 0\<close> asks for growth up to the fixed point and \<open>iterations = 1\<close> for a
  single step: on the line \<open>[1, 0, 0]\<close> the former labels every pixel, the latter only
  the first two.
\<close>

theorem GrowRegions_monotone_counterexample:
  "\<not> nonbackground (GrowRegions [1, 0, 0] None (fixed_nbrs line_nbrs) 0)
    \<subseteq> nonbackground (GrowRegions [1, 0, 0] None (fixed_nbrs line_nbrs) (0 + 1))"
  unfolding GrowRegions_line_fixed_point GrowRegions_line_one_step
    nonbackground_line_full nonbackground_line_two by simp

lemma length_grow_step: "length (grow_step nb msk label) = length label"
  by (simp add: grow_step_def)

lemma grow_step_keeps:
  "p < length label \<Longrightarrow> label ! p \<noteq> 0 \<Longrightarrow> grow_step nb msk label ! p = label ! p"
  by (simp add: grow_step_def)

lemma nonbackground_iff: "p \<in> nonbackground label \<longleftrightarrow> p < length label \<and> label ! p \<noteq> 0"
  by (auto simp: nonbackground_def)

lemma nonbackground_grow_step: "nonbackground label \<subseteq> nonbackground (grow_step nb msk label)"
proof
  fix p assume "p \<in> nonbackground label"
  then have p: "p < length label" "label ! p \<noteq> 0"
    by (simp_all add: nonbackground_iff)
  then show "p \<in> nonbackground (grow_step nb msk label)"
    using grow_step_keeps[OF p] by (simp add: nonbackground_iff length_grow_step)
qed

lemma grow_steps_Suc:
  "grow_steps nbrs msk k (Suc i) label = grow_step (nbrs (k + i)) msk (grow_steps nbrs msk k i label)"
proof (induction i arbitrary: k label)
  case 0
  show ?case by simp
next
  case (Suc i)
  have "grow_steps nbrs msk k (Suc (Suc i)) label
      = grow_steps nbrs msk (Suc k) (Suc i) (grow_step (nbrs k) msk label)"
    by simp
  also have "\<dots> = grow_step (nbrs (Suc k + i)) msk
      (grow_steps nbrs msk (Suc k) i (grow_step (nbrs k) msk label))"
    by (rule Suc.IH)
  finally show ?case by simp
qed

text \<open>
  C6, amended. For every label image, mask and connectivity and every iteration count
  \<open>n\<close> of at least 1, the non-background pixels of the result with \<open>iterations = n\<close> are
  among those of the result with \<open>iterations = n + 1\<close>.
\<close>

theorem GrowRegions_monotone:
  assumes "1 \<le> n"
  shows "nonbackground (GrowRegions label msk nbrs n)
       \<subseteq> nonbackground (GrowRegions label msk nbrs (n + 1))"
proof -
  have "GrowRegions label msk nbrs (n + 1)
      = grow_step (nbrs (0 + n)) msk (GrowRegions label msk nbrs n)"
    using assms grow_steps_Suc[of nbrs msk 0 n label] by (simp add: GrowRegions_def)
  then show ?thesis
    by (simp only: nonbackground_grow_step)
qed

theorem GrowRegions_monotone_witness:
  "(1::nat) \<le> 1 \<and> nonbackground (GrowRegions [1, 0, 0] None (fixed_nbrs line_nbrs) 1)
       \<subseteq> nonbackground (GrowRegions [1, 0, 0] None (fixed_nbrs line_nbrs) (1 + 1))
   \<and> GrowRegions [1, 0, 0] None (fixed_nbrs line_nbrs) 1 = [1, 1, 0]
   \<and> GrowRegions [1, 0, 0] None (fixed_nbrs line_nbrs) (1 + 1) = [1, 1, 1]"
  using GrowRegions_monotone [of 1 "[1, 0, 0]" None "fixed_nbrs line_nbrs"]
  by (simp add: GrowRegions_def grow_step_line_1 grow_step_line_2 fixed_nbrs_def)

end
